theory Spec2Isabelle
  imports Main "HOL-Library.AList" "HOL-Library.Multiset"
begin

text \<open>
  A shallow embedding of the GraphQL document composer, src/app.ts, and proofs of
  properties of it. The two other source files are earlier versions of the same
  program, one of them in compiled form: they have the same classifier, graph
  construction and fold, and lack the validation step; the line numbers below are those
  of src/app.ts.
\<close>

section \<open>The parsed schema document\<close>

text \<open>
  Modelled from the spec: the types of the syntax tree. The composer (src/app.ts) works
  on documents parsed by the graphql package, which declares these types (app.ts, lines
  3 to 15) and is not among the files of the repository; the spec describes a document
  as an ordered sequence of definitions, each a tagged variant (3). Only the parts of
  the tree that the composer reads are kept: the kind tag of a node, its name (the
  source reads \<open>node.name.value\<close>; the two steps are one field here), and the lists
  of directives, interfaces, fields, union members and enum values. The parser gives
  every such list, empty where the document has nothing to list.
\<close>

datatype DirectiveNode = Directive (directive_name: string)

datatype NamedTypeNode = NamedType (type_name: string)

datatype TypeNode =
    Named NamedTypeNode
  | ListType TypeNode
  | NonNullType TypeNode

datatype InputValueDefinitionNode =
  InputValueDefinition (input_type: TypeNode) (input_directives: "DirectiveNode list")

text \<open>
  The members of \<open>definition.fields\<close>: a \<open>FieldDefinition\<close> (object and interface
  types) carries arguments; the fields of an input object type are input values, of kind
  \<open>InputValueDefinition\<close>, and carry none.
\<close>

datatype FieldNode =
    is_FieldDefinition: FieldDefinition
      (field_arguments: "InputValueDefinitionNode list")
      (field_type: TypeNode)
      (field_directives: "DirectiveNode list")
  | InputValueField
      (field_type: TypeNode)
      (field_directives: "DirectiveNode list")
where
  "field_arguments (InputValueField t ds) = []"

datatype EnumValueDefinitionNode = EnumValueDefinition (value_directives: "DirectiveNode list")

datatype Kind =
    OperationDefinition
  | FragmentDefinition
  | SchemaDefinition
  | ScalarTypeDefinition
  | ObjectTypeDefinition
  | InterfaceTypeDefinition
  | UnionTypeDefinition
  | EnumTypeDefinition
  | InputObjectTypeDefinition
  | DirectiveDefinition
  | SchemaExtension
  | ScalarTypeExtension
  | ObjectTypeExtension
  | InterfaceTypeExtension
  | UnionTypeExtension
  | EnumTypeExtension
  | InputObjectTypeExtension

text \<open>The string that the source compares \<open>node.kind\<close> with.\<close>

fun kind_string :: "Kind \<Rightarrow> string" where
  "kind_string OperationDefinition = ''OperationDefinition''"
| "kind_string FragmentDefinition = ''FragmentDefinition''"
| "kind_string SchemaDefinition = ''SchemaDefinition''"
| "kind_string ScalarTypeDefinition = ''ScalarTypeDefinition''"
| "kind_string ObjectTypeDefinition = ''ObjectTypeDefinition''"
| "kind_string InterfaceTypeDefinition = ''InterfaceTypeDefinition''"
| "kind_string UnionTypeDefinition = ''UnionTypeDefinition''"
| "kind_string EnumTypeDefinition = ''EnumTypeDefinition''"
| "kind_string InputObjectTypeDefinition = ''InputObjectTypeDefinition''"
| "kind_string DirectiveDefinition = ''DirectiveDefinition''"
| "kind_string SchemaExtension = ''SchemaExtension''"
| "kind_string ScalarTypeExtension = ''ScalarTypeExtension''"
| "kind_string ObjectTypeExtension = ''ObjectTypeExtension''"
| "kind_string InterfaceTypeExtension = ''InterfaceTypeExtension''"
| "kind_string UnionTypeExtension = ''UnionTypeExtension''"
| "kind_string EnumTypeExtension = ''EnumTypeExtension''"
| "kind_string InputObjectTypeExtension = ''InputObjectTypeExtension''"

text \<open>
  A top-level definition. A field that a kind does not carry is empty, and the composer
  never reads it: every access in the source sits under a test of the kind.
\<close>

record DefinitionNode =
  kind :: Kind
  name :: string
  directives :: "DirectiveNode list"
  interfaces :: "NamedTypeNode list"
  field_list :: "FieldNode list"
  types :: "TypeNode list"
  enum_values :: "EnumValueDefinitionNode list"

text \<open>
  \<open>source_name\<close> is \<open>document.loc.source.name\<close>, the path of the file relative to
  the source directory.
\<close>

record DocumentNode =
  source_name :: string
  definitions :: "DefinitionNode list"

subsection \<open>The predicates of graphql/language\<close>

text \<open>
  Modelled from the spec: the four predicates are imported from the graphql package
  (app.ts, lines 3 to 15), whose code is not among the files of the repository. A type
  definition is a definition of a scalar, object, interface, union, enum or input object
  type; a type system definition is a schema definition, a type definition or a
  directive definition; a type system extension is a schema extension or an extension
  of one of the six kinds of types (spec, 3 and 4.2).
\<close>

definition isTypeDefinitionNode :: "DefinitionNode \<Rightarrow> bool" where
  "isTypeDefinitionNode node \<longleftrightarrow>
     kind node = ScalarTypeDefinition \<or> kind node = ObjectTypeDefinition
   \<or> kind node = InterfaceTypeDefinition \<or> kind node = UnionTypeDefinition
   \<or> kind node = EnumTypeDefinition \<or> kind node = InputObjectTypeDefinition"

definition isTypeSystemDefinitionNode :: "DefinitionNode \<Rightarrow> bool" where
  "isTypeSystemDefinitionNode node \<longleftrightarrow>
     kind node = SchemaDefinition \<or> isTypeDefinitionNode node \<or> kind node = DirectiveDefinition"

definition isTypeExtensionNode :: "DefinitionNode \<Rightarrow> bool" where
  "isTypeExtensionNode node \<longleftrightarrow>
     kind node = ScalarTypeExtension \<or> kind node = ObjectTypeExtension
   \<or> kind node = InterfaceTypeExtension \<or> kind node = UnionTypeExtension
   \<or> kind node = EnumTypeExtension \<or> kind node = InputObjectTypeExtension"

definition isTypeSystemExtensionNode :: "DefinitionNode \<Rightarrow> bool" where
  "isTypeSystemExtensionNode node \<longleftrightarrow> kind node = SchemaExtension \<or> isTypeExtensionNode node"

section \<open>Reference extraction and dependency classification\<close>

text \<open>\<open>unwrap\<close> (app.ts, line 56) strips list and non-null wrappers.\<close>

fun unwrap :: "TypeNode \<Rightarrow> NamedTypeNode" where
  "unwrap (Named n) = n"
| "unwrap (ListType t) = unwrap t"
| "unwrap (NonNullType t) = unwrap t"

text \<open>
  The regular expressions \<open>/^(.+)Definition$/\<close> and \<open>/^(.+)Extension$/\<close>:
  \<open>exec_stem suffix s\<close> is the first group of the match, or \<open>None\<close> where
  \<open>exec\<close> returns null. The group is not empty and, as \<open>.\<close> matches no line
  terminator, holds none.
\<close>

definition line_terminator :: "char \<Rightarrow> bool" where
  "line_terminator c \<longleftrightarrow> c = CHR 0x0A \<or> c = CHR 0x0D"

definition exec_stem :: "string \<Rightarrow> string \<Rightarrow> string option" where
  "exec_stem suffix s =
     (let n = length s - length suffix in
      if length suffix < length s \<and> drop n s = suffix \<and> \<not> list_ex line_terminator (take n s)
      then Some (take n s) else None)"

text \<open>
  What \<open>hasExtensionsFor\<close> does with one extension of A and one definition of B
  (app.ts, lines 63 to 74): whether the pair makes the function return true.
\<close>

definition extension_matches :: "DefinitionNode \<Rightarrow> DefinitionNode \<Rightarrow> bool" where
  "extension_matches typeSystemExtensionNode typeSystemDefinitionNode =
     (let typeDefinitionMatch = exec_stem ''Definition'' (kind_string (kind typeSystemDefinitionNode));
          typeExtensionMatch = exec_stem ''Extension'' (kind_string (kind typeSystemExtensionNode))
      in if typeDefinitionMatch = Some ''Schema'' \<and> typeExtensionMatch = Some ''Schema'' then True
         else typeDefinitionMatch = typeExtensionMatch
              \<and> name typeSystemDefinitionNode = name typeSystemExtensionNode)"

definition hasExtensionsFor :: "DocumentNode \<Rightarrow> DocumentNode \<Rightarrow> bool" where
  "hasExtensionsFor documentA documentB =
     list_ex (\<lambda>typeSystemExtensionNode.
        list_ex (\<lambda>typeSystemDefinitionNode.
           extension_matches typeSystemExtensionNode typeSystemDefinitionNode)
         (filter isTypeSystemDefinitionNode (definitions documentB)))
      (filter isTypeSystemExtensionNode (definitions documentA))"

text \<open>
  The loop of \<open>hasTypesFor\<close> (app.ts, lines 84 to 116) pushes names on two arrays.
  \<open>collect_field\<close> is the body of the inner loop over the fields, \<open>collect\<close> the body of
  the loop over the definitions; the state is the pair (typeNames, directiveNames).
\<close>

definition collect_field :: "FieldNode \<Rightarrow> string list \<times> string list \<Rightarrow> string list \<times> string list" where
  "collect_field field acc =
     (let (typeNames, directiveNames) = acc;
          typeNames =
            (if is_FieldDefinition field
             then typeNames @ map (\<lambda>argument. type_name (unwrap (input_type argument)))
                                (field_arguments field)
             else typeNames);
          typeNames = typeNames @ [type_name (unwrap (field_type field))];
          directiveNames = directiveNames @ map directive_name (field_directives field)
      in (typeNames, directiveNames))"

definition collect :: "DefinitionNode \<Rightarrow> string list \<times> string list \<Rightarrow> string list \<times> string list" where
  "collect definition acc =
     (let (typeNames, directiveNames) = acc;
          directiveNames =
            (if isTypeDefinitionNode definition
             then directiveNames @ map directive_name (directives definition)
             else directiveNames);
          typeNames =
            (if kind definition = ObjectTypeDefinition \<or> kind definition = ObjectTypeExtension
             then typeNames @ map type_name (interfaces definition)
             else typeNames);
          (typeNames, directiveNames) =
            (if kind definition = ObjectTypeDefinition
              \<or> kind definition = InterfaceTypeDefinition
              \<or> kind definition = InputObjectTypeDefinition
              \<or> kind definition = ObjectTypeExtension
              \<or> kind definition = InterfaceTypeExtension
              \<or> kind definition = InputObjectTypeExtension
             then fold collect_field (field_list definition) (typeNames, directiveNames)
             else (typeNames, directiveNames));
          typeNames =
            (if kind definition = UnionTypeDefinition \<or> kind definition = UnionTypeExtension
             then typeNames @ map (\<lambda>t. type_name (unwrap t)) (types definition)
             else typeNames);
          directiveNames =
            (if kind definition = EnumTypeDefinition \<or> kind definition = EnumTypeExtension
             then directiveNames
                  @ foldl (\<lambda>names v. names @ map directive_name (value_directives v)) []
                      (enum_values definition)
             else directiveNames)
      in (typeNames, directiveNames))"

definition references :: "DocumentNode \<Rightarrow> string list \<times> string list" where
  "references documentA = fold collect (definitions documentA) ([], [])"

definition typeNames :: "DocumentNode \<Rightarrow> string list" where
  "typeNames documentA = fst (references documentA)"

definition directiveNames :: "DocumentNode \<Rightarrow> string list" where
  "directiveNames documentA = snd (references documentA)"

definition hasTypesFor :: "DocumentNode \<Rightarrow> DocumentNode \<Rightarrow> bool" where
  "hasTypesFor documentA documentB =
     (if list_ex (\<lambda>directive. name directive \<in> set (directiveNames documentA))
           (filter (\<lambda>definition. kind definition = DirectiveDefinition) (definitions documentB))
      then True
      else if list_ex (\<lambda>t. name t \<in> set (typeNames documentA))
           (filter isTypeDefinitionNode (definitions documentB))
      then True
      else False)"

definition isDependentOn :: "DocumentNode \<Rightarrow> DocumentNode \<Rightarrow> bool" where
  "isDependentOn documentA documentB \<longleftrightarrow>
     hasExtensionsFor documentA documentB \<or> hasTypesFor documentA documentB"

section \<open>The dependency graph\<close>

text \<open>
  What can be thrown: the cycle error of the orderer with its path, the error of the
  graph for a name that is no node, a type error, and an error of a primitive of the
  graphql package with its message. \<open>OutOfFuel\<close> is not an error of the program: it
  is what the search below returns when its bound on the depth is reached, which never
  happens on a graph that \<open>build\<close> makes.
\<close>

datatype error =
    CycleError "string list"
  | NodeDoesNotExist string
  | TypeError
  | OutOfFuel
  | Raised string

text \<open>
  Modelled from the spec: the class \<open>DepGraph\<close> of the package dependency-graph, which
  app.ts imports (line 17) and whose code is not among the files of the repository. The
  spec has the graph keyed by document name (4.3), two documents of one name "silently
  collide in the graph" (9), several edges between one pair collapse to one (3), and the
  orderer yields the dependencies of a document before the document, takes the documents
  in discovery order, and fails on a cycle with an error that names the documents (4.4).
  The definitions of this section follow the way the package does this. A graph is three
  objects that keep the order in which their keys were added (association lists here):
  the payload of each node, and its outgoing and its incoming edges. The names are file
  names that end in \<open>.gql\<close> or \<open>.graphql\<close>, so none of them is an array index, which
  an object would list first.
\<close>

record DepGraph =
  nodes :: "(string \<times> DocumentNode) list"
  outgoingEdges :: "(string \<times> string list) list"
  incomingEdges :: "(string \<times> string list) list"

text \<open>Modelled from the spec: \<open>new DepGraph()\<close>, the graph with no node.\<close>

definition new_DepGraph :: DepGraph where
  "new_DepGraph = \<lparr>nodes = [], outgoingEdges = [], incomingEdges = []\<rparr>"

text \<open>Modelled from the spec: \<open>hasNode\<close>, whether a name is a key of the graph (4.3).\<close>

definition hasNode :: "DepGraph \<Rightarrow> string \<Rightarrow> bool" where
  "hasNode graph node \<longleftrightarrow> node \<in> set (map fst (nodes graph))"

text \<open>
  Modelled from the spec: \<open>addNode\<close>. A new name becomes a node with its payload and
  no edge; a name that is already a node is left alone, payload included, so that
  documents of one name collide without an error (9).
\<close>

definition addNode :: "DepGraph \<Rightarrow> string \<Rightarrow> DocumentNode \<Rightarrow> DepGraph" where
  "addNode graph node data =
     (if \<not> hasNode graph node
      then graph\<lparr>nodes := nodes graph @ [(node, data)],
                 outgoingEdges := outgoingEdges graph @ [(node, [])],
                 incomingEdges := incomingEdges graph @ [(node, [])]\<rparr>
      else graph)"

text \<open>
  Modelled from the spec: \<open>addDependency\<close>. Both names must be nodes, or the call
  throws; the edge is stored with its source and with its target, once (3: "multiple
  edges between the same pair collapse to one").
\<close>

definition push_new :: "string \<Rightarrow> string list \<Rightarrow> string list" where
  "push_new x xs = (if x \<in> set xs then xs else xs @ [x])"

definition addDependency :: "DepGraph \<Rightarrow> string \<Rightarrow> string \<Rightarrow> error + DepGraph" where
  "addDependency graph from to =
     (if \<not> hasNode graph from then Inl (NodeDoesNotExist from)
      else if \<not> hasNode graph to then Inl (NodeDoesNotExist to)
      else Inr (graph\<lparr>
        outgoingEdges := AList.map_entry from (push_new to) (outgoingEdges graph),
        incomingEdges := AList.map_entry to (push_new from) (incomingEdges graph)\<rparr>))"

text \<open>
  Modelled from the spec: \<open>getNodeData\<close>, the payload of a node; it throws for a name
  that is no node.
\<close>

definition getNodeData :: "DepGraph \<Rightarrow> string \<Rightarrow> error + DocumentNode" where
  "getNodeData graph node =
     (case map_of (nodes graph) node of
        Some data \<Rightarrow> Inr data
      | None \<Rightarrow> Inl (NodeDoesNotExist node))"

text \<open>
  Modelled from the spec: the depth-first search of the orderer (4.4). The state is the
  pair (visited, result); the current path is an argument, as the package pushes the node
  on entry and pops it on exit. The search of a node visits the targets of its edges
  first, in the order in which the edges were added, and appends the node to the result
  afterwards; an edge to a node of the current path is a cycle, and the error carries the
  path followed by that node. Reading the edges of a name that is no node is a type
  error. The first argument bounds the depth of the recursion; \<open>overallOrder\<close> passes
  the number of nodes, which the depth cannot exceed (see \<open>overallOrder_result\<close>).
\<close>

fun DFS :: "nat \<Rightarrow> (string \<times> string list) list \<Rightarrow> string list \<Rightarrow> string
              \<Rightarrow> string list \<times> string list \<Rightarrow> error + string list \<times> string list"
and DFS_forEach :: "nat \<Rightarrow> (string \<times> string list) list \<Rightarrow> string list \<Rightarrow> string list
              \<Rightarrow> string list \<times> string list \<Rightarrow> error + string list \<times> string list"
where
  "DFS 0 edges currentPath currentNode s = Inl OutOfFuel"
| "DFS (Suc fuel) edges currentPath currentNode (visited, result) =
     (case map_of edges currentNode of
        None \<Rightarrow> Inl TypeError
      | Some targets \<Rightarrow>
          (case DFS_forEach fuel edges (currentPath @ [currentNode]) targets
                  (currentNode # visited, result) of
             Inl e \<Rightarrow> Inl e
           | Inr (visited', result') \<Rightarrow>
               Inr (visited',
                    if currentNode \<in> set result' then result' else result' @ [currentNode])))"
| "DFS_forEach fuel edges currentPath [] s = Inr s"
| "DFS_forEach fuel edges currentPath (node # rest) (visited, result) =
     (if node \<notin> set visited
      then (case DFS fuel edges currentPath node (visited, result) of
              Inl e \<Rightarrow> Inl e
            | Inr s' \<Rightarrow> DFS_forEach fuel edges currentPath rest s')
      else if node \<in> set currentPath then Inl (CycleError (currentPath @ [node]))
      else DFS_forEach fuel edges currentPath rest (visited, result))"

text \<open>
  Modelled from the spec: \<open>overallOrder\<close> (4.4). An empty graph has the empty order.
  Otherwise a first search, from every node in the order of insertion, looks for a cycle
  and its result is dropped; a second search, from the nodes that nothing depends on,
  in the order of insertion, builds the order.
\<close>

definition overallOrder :: "DepGraph \<Rightarrow> error + string list" where
  "overallOrder graph =
     (let keys = map fst (nodes graph) in
      if keys = [] then Inr []
      else
        (case DFS_forEach (length keys) (outgoingEdges graph) [] keys ([], []) of
           Inl e \<Rightarrow> Inl e
         | Inr cycleFree \<Rightarrow>
             (case DFS_forEach (length keys) (outgoingEdges graph) []
                     (filter (\<lambda>node. map_of (incomingEdges graph) node = Some []) keys)
                     ([], []) of
                Inl e \<Rightarrow> Inl e
              | Inr (visited, result) \<Rightarrow> Inr result)))"

section \<open>The build\<close>

text \<open>
  What a build does to the outside, in order: lines on the console, and calls of
  \<open>fs.mkdirSync\<close> and \<open>fs.writeFileSync\<close>.
\<close>

datatype event =
    ConsoleLog string
  | ConsoleError string
  | MkdirSync string
  | WriteFileSync string string

text \<open>
  How a build ends: it returns, it leaves through \<open>process.exit\<close>, or an exception
  that nothing catches ends it.
\<close>

datatype outcome = Returned | Exit nat | Uncaught error

text \<open>
  The primitives of the graphql package and of node that \<open>build\<close> calls; they are
  parameters. \<open>'s\<close> is \<open>GraphQLSchema\<close>, and \<open>None\<close> is null. A primitive that
  throws returns \<open>Inl\<close> with the message. \<open>relative\<close>, \<open>dirname\<close> and
  \<open>existsSync\<close> are those of \<open>path\<close> and \<open>fs\<close>; \<open>fs.mkdirSync\<close> and
  \<open>fs.writeFileSync\<close> are recorded as events and taken to succeed.
\<close>

record 's primitives =
  buildASTSchema :: "DocumentNode \<Rightarrow> string + 's"
  extendSchema :: "'s option \<Rightarrow> DocumentNode \<Rightarrow> string + 's"
  validateSchema :: "'s option \<Rightarrow> string + string list"
  printSchema :: "'s option \<Rightarrow> string + string"
  existsSync :: "string \<Rightarrow> bool"
  dirname :: "string \<Rightarrow> string"
  relative :: "string \<Rightarrow> string \<Rightarrow> string"

text \<open>The first loop of \<open>build\<close> (app.ts, lines 152 to 155).\<close>

definition add_nodes :: "DocumentNode list \<Rightarrow> event list \<times> DepGraph" where
  "add_nodes documents =
     fold (\<lambda>document (events, graph).
             (events @ [ConsoleLog (''Adding '' @ source_name document)],
              addNode graph (source_name document) document))
       documents ([], new_DepGraph)"

text \<open>
  The second loop (lines 157 to 163): for each document A, the documents B of another
  name that A depends on, in the order of the list.
\<close>

definition dependency_pairs :: "DocumentNode list \<Rightarrow> (DocumentNode \<times> DocumentNode) list" where
  "dependency_pairs documents =
     concat (map (\<lambda>documentA.
        map (\<lambda>documentB. (documentA, documentB))
          (filter (\<lambda>documentB. source_name documentB \<noteq> source_name documentA
                                \<and> isDependentOn documentA documentB) documents))
        documents)"

fun add_dependencies :: "(DocumentNode \<times> DocumentNode) list \<Rightarrow> DepGraph
                            \<Rightarrow> event list \<times> (error + DepGraph)" where
  "add_dependencies [] graph = ([], Inr graph)"
| "add_dependencies ((documentA, documentB) # rest) graph =
     (let line = ConsoleLog ([CHR 0x22] @ source_name documentA @ [CHR 0x22]
                   @ '' has a dependency on ''
                   @ [CHR 0x22] @ source_name documentB @ [CHR 0x22] @ ''.'')
      in case addDependency graph (source_name documentA) (source_name documentB) of
           Inl e \<Rightarrow> ([line], Inl e)
         | Inr graph' \<Rightarrow>
             (case add_dependencies rest graph' of (events, r) \<Rightarrow> (line # events, r)))"

definition build_graph :: "DocumentNode list \<Rightarrow> event list \<times> (error + DepGraph)" where
  "build_graph documents =
     (case add_nodes documents of (events, graph) \<Rightarrow>
        (case add_dependencies (dependency_pairs documents) graph of
           (events', r) \<Rightarrow> (events @ events', r)))"

text \<open>\<open>graph.overallOrder().map(nodeName => graph.getNodeData(nodeName))\<close>\<close>

fun getNodeDatas :: "DepGraph \<Rightarrow> string list \<Rightarrow> error + DocumentNode list" where
  "getNodeDatas graph [] = Inr []"
| "getNodeDatas graph (nodeName # rest) =
     (case getNodeData graph nodeName of
        Inl e \<Rightarrow> Inl e
      | Inr document \<Rightarrow>
          (case getNodeDatas graph rest of
             Inl e \<Rightarrow> Inl e
           | Inr documents \<Rightarrow> Inr (document # documents)))"

text \<open>
  The \<open>reduce\<close> of lines 167 to 176, from the index and the accumulator it has reached:
  the document at index 0 goes to \<open>buildASTSchema\<close>, every other one to \<open>extendSchema\<close>
  with the accumulator.
\<close>

fun reduce_schema :: "'s primitives \<Rightarrow> nat \<Rightarrow> 's option \<Rightarrow> DocumentNode list
                        \<Rightarrow> event list \<times> (error + 's option)" where
  "reduce_schema env index schema [] = ([], Inr schema)"
| "reduce_schema env index schema (document # rest) =
     (let line = (if index = 0
                  then ConsoleLog (''Building schema with '' @ source_name document @ ''.'')
                  else ConsoleLog (''Extending with '' @ source_name document @ ''.''))
      in case (if index = 0 then buildASTSchema env document
               else extendSchema env schema document) of
           Inl message \<Rightarrow> ([line], Inl (Raised message))
         | Inr schema' \<Rightarrow>
             (case reduce_schema env (Suc index) (Some schema') rest of
                (events, r) \<Rightarrow> (line # events, r)))"

text \<open>Lines 165 to 176: order the graph, fetch the documents, fold them.\<close>

definition assemble :: "'s primitives \<Rightarrow> DepGraph \<Rightarrow> event list \<times> (error + 's option)" where
  "assemble env graph =
     (case overallOrder graph of
        Inl e \<Rightarrow> ([], Inl e)
      | Inr order \<Rightarrow>
          (case getNodeDatas graph order of
             Inl e \<Rightarrow> ([], Inl e)
           | Inr documents \<Rightarrow> reduce_schema env 0 None documents))"

text \<open>Lines 178 to 192: validate, and save when there is no violation.\<close>

definition validate_and_save :: "'s primitives \<Rightarrow> string \<Rightarrow> 's option \<Rightarrow> event list \<times> outcome" where
  "validate_and_save env output schema =
     (let started = [ConsoleLog [], ConsoleLog ''Validating...''] in
      case validateSchema env schema of
        Inl message \<Rightarrow> (started, Uncaught (Raised message))
      | Inr validationErrors \<Rightarrow>
          if validationErrors \<noteq> []
          then (started @ [ConsoleLog []] @ map ConsoleError validationErrors
                  @ [ConsoleError ''Validation Failed!''],
                Exit 1)
          else
            (let saving = started @ [ConsoleLog (''Saving '' @ relative env ''.'' output)]
                   @ (if \<not> existsSync env output then [MkdirSync (dirname env output)] else [])
             in case printSchema env schema of
                  Inl message \<Rightarrow> (saving, Uncaught (Raised message))
                | Inr text \<Rightarrow> (saving @ [WriteFileSync output text], Returned)))"

text \<open>
  The callback of \<open>build\<close> (lines 145 to 192), from the parsed documents on: the
  directory walk, the reading of the files and \<open>parse\<close> come before and give the list
  \<open>documents\<close>, in the order of discovery.
\<close>

definition build :: "'s primitives \<Rightarrow> string \<Rightarrow> DocumentNode list \<Rightarrow> event list \<times> outcome" where
  "build env output documents =
     (case build_graph documents of
        (events, Inl e) \<Rightarrow> (events, Uncaught e)
      | (events, Inr graph) \<Rightarrow>
          (case assemble env graph of
             (events', Inl e) \<Rightarrow> (events @ events', Uncaught e)
           | (events', Inr schema) \<Rightarrow>
               (case validate_and_save env output schema of
                  (events'', out) \<Rightarrow> (events @ events' @ events'', out))))"

text \<open>
  Two values that \<open>build\<close> computes on its way: the result of the fold, with the
  events so far, and the order that \<open>graph.overallOrder()\<close> returns.
\<close>

definition assembled :: "'s primitives \<Rightarrow> DocumentNode list \<Rightarrow> event list \<times> (error + 's option)" where
  "assembled env documents =
     (case build_graph documents of
        (events, Inl e) \<Rightarrow> (events, Inl e)
      | (events, Inr graph) \<Rightarrow>
          (case assemble env graph of (events', r) \<Rightarrow> (events @ events', r)))"

definition merge_order :: "DocumentNode list \<Rightarrow> error + string list" where
  "merge_order documents =
     (case snd (build_graph documents) of
        Inl e \<Rightarrow> Inl e
      | Inr graph \<Rightarrow> overallOrder graph)"

text \<open>
  The documents in merge order, as \<open>build\<close> hands them to the fold; what the
  build does with them from there on, that is the fold, the validation and the saving;
  and the files that a list of events writes, as pairs of a path and a text.
\<close>

definition ordered_documents :: "DocumentNode list \<Rightarrow> error + DocumentNode list" where
  "ordered_documents documents =
     (case snd (build_graph documents) of
        Inl e \<Rightarrow> Inl e
      | Inr graph \<Rightarrow>
          (case overallOrder graph of
             Inl e \<Rightarrow> Inl e
           | Inr order \<Rightarrow> getNodeDatas graph order))"

definition fold_and_save :: "'s primitives \<Rightarrow> string \<Rightarrow> DocumentNode list \<Rightarrow> event list \<times> outcome" where
  "fold_and_save env output documents =
     (case reduce_schema env 0 None documents of
        (events, Inl e) \<Rightarrow> (events, Uncaught e)
      | (events, Inr schema) \<Rightarrow>
          (case validate_and_save env output schema of
             (events', out) \<Rightarrow> (events @ events', out)))"

fun written :: "event list \<Rightarrow> (string \<times> string) list" where
  "written [] = []"
| "written (WriteFileSync path text # events) = (path, text) # written events"
| "written (e # events) = written events"

section \<open>Watch mode\<close>

text \<open>
  \<open>fileFilter\<close> (line 137) tests the name against \<open>/^.*\.g(raph)?ql$/i\<close>: the name ends
  in \<open>.gql\<close> or \<open>.graphql\<close>, in any mix of cases, and no line terminator comes before.
  A name is a list of 8-bit characters here, so of the line terminators of the language
  only line feed and carriage return occur.
\<close>

definition lower :: "char \<Rightarrow> char" where
  "lower c =
     (case map_of (zip ''ABCDEFGHIJKLMNOPQRSTUVWXYZ'' ''abcdefghijklmnopqrstuvwxyz'') c of
        Some l \<Rightarrow> l
      | None \<Rightarrow> c)"

definition ends_with :: "string \<Rightarrow> string \<Rightarrow> bool" where
  "ends_with suffix s \<longleftrightarrow> length suffix \<le> length s \<and> drop (length s - length suffix) s = suffix"

definition fileFilter :: "string \<Rightarrow> bool" where
  "fileFilter fileName \<longleftrightarrow>
     \<not> list_ex line_terminator fileName
   \<and> (ends_with ''.gql'' (map lower fileName) \<or> ends_with ''.graphql'' (map lower fileName))"

text \<open>
  The listener that line 206 gives to \<open>fs.watch\<close>: it returns at once or calls
  \<open>start\<close>, which runs \<open>build\<close>.
\<close>

datatype reaction = Return | Start

definition watch_listener :: "string \<Rightarrow> string \<Rightarrow> reaction" where
  "watch_listener eventType filename = (if fileFilter filename then Return else Start)"

section \<open>The words of the specification\<close>

text \<open>
  The definitions of this section follow the specification, not the source; the
  properties below compare the two.
\<close>

text \<open>
  The category of a definition or of an extension (specification, 4.2 and 9): schema,
  one of the six categories of types, or directive. There is no extension of a directive.
\<close>

datatype Category = Schema | ScalarType | ObjectType | InterfaceType | UnionType | EnumType
  | InputObjectType | DirectiveCategory

fun definition_category :: "Kind \<Rightarrow> Category option" where
  "definition_category SchemaDefinition = Some Schema"
| "definition_category ScalarTypeDefinition = Some ScalarType"
| "definition_category ObjectTypeDefinition = Some ObjectType"
| "definition_category InterfaceTypeDefinition = Some InterfaceType"
| "definition_category UnionTypeDefinition = Some UnionType"
| "definition_category EnumTypeDefinition = Some EnumType"
| "definition_category InputObjectTypeDefinition = Some InputObjectType"
| "definition_category DirectiveDefinition = Some DirectiveCategory"
| "definition_category _ = None"

fun extension_category :: "Kind \<Rightarrow> Category option" where
  "extension_category SchemaExtension = Some Schema"
| "extension_category ScalarTypeExtension = Some ScalarType"
| "extension_category ObjectTypeExtension = Some ObjectType"
| "extension_category InterfaceTypeExtension = Some InterfaceType"
| "extension_category UnionTypeExtension = Some UnionType"
| "extension_category EnumTypeExtension = Some EnumType"
| "extension_category InputObjectTypeExtension = Some InputObjectType"
| "extension_category _ = None"

text \<open>A declares a schema extension and B declares a schema definition.\<close>

definition schema_extends :: "DocumentNode \<Rightarrow> DocumentNode \<Rightarrow> bool" where
  "schema_extends A B \<longleftrightarrow>
     (\<exists>e \<in> set (definitions A). kind e = SchemaExtension)
   \<and> (\<exists>d \<in> set (definitions B). kind d = SchemaDefinition)"

text \<open>
  A declares an extension, not of the schema, whose category and name are those of a
  definition in B.
\<close>

definition named_extends :: "DocumentNode \<Rightarrow> DocumentNode \<Rightarrow> bool" where
  "named_extends A B \<longleftrightarrow>
     (\<exists>e \<in> set (definitions A). \<exists>d \<in> set (definitions B). \<exists>c.
        c \<noteq> Schema \<and> extension_category (kind e) = Some c
      \<and> definition_category (kind d) = Some c \<and> name e = name d)"

text \<open>The definitions and extensions of object, interface and input object types.\<close>

definition has_fields :: "DefinitionNode \<Rightarrow> bool" where
  "has_fields d \<longleftrightarrow>
     kind d \<in> {ObjectTypeDefinition, InterfaceTypeDefinition, InputObjectTypeDefinition,
               ObjectTypeExtension, InterfaceTypeExtension, InputObjectTypeExtension}"

text \<open>
  A type reference is a named type under any number of list and non-null wrappers
  (specification, 3 and 4.1). \<open>wrap\<close> puts the wrappers on, outermost first, and
  \<open>names_type t n\<close> says that t is the named type n under some wrappers. Neither
  uses the \<open>unwrap\<close> of the source.
\<close>

datatype Wrapper = ListOf | NonNull

fun wrap :: "Wrapper list \<Rightarrow> NamedTypeNode \<Rightarrow> TypeNode" where
  "wrap [] named = Named named"
| "wrap (ListOf # ws) named = ListType (wrap ws named)"
| "wrap (NonNull # ws) named = NonNullType (wrap ws named)"

definition names_type :: "TypeNode \<Rightarrow> string \<Rightarrow> bool" where
  "names_type t n \<longleftrightarrow> (\<exists>ws. t = wrap ws (NamedType n))"

text \<open>
  The names that the specification puts in \<open>typeNames\<close> (4.1): the type names of
  the fields, and of the arguments of the fields, of the definitions and extensions of
  object, interface and input object types; the interfaces that the definitions and
  extensions of object types implement; the members of the definitions and extensions
  of unions.
\<close>

definition type_referenced :: "DocumentNode \<Rightarrow> string \<Rightarrow> bool" where
  "type_referenced A n \<longleftrightarrow>
     (\<exists>d \<in> set (definitions A).
        (has_fields d \<and>
           (\<exists>f \<in> set (field_list d).
              names_type (field_type f) n
            \<or> (\<exists>a \<in> set (field_arguments f). names_type (input_type a) n)))
      \<or> ((kind d = ObjectTypeDefinition \<or> kind d = ObjectTypeExtension)
           \<and> NamedType n \<in> set (interfaces d))
      \<or> ((kind d = UnionTypeDefinition \<or> kind d = UnionTypeExtension)
           \<and> (\<exists>t \<in> set (types d). names_type t n)))"

text \<open>
  The names that the specification puts in \<open>directiveNames\<close> (4.1): the directives
  on a type definition, on a field, and on a value of a definition or extension of an
  enum.
\<close>

definition directive_applied :: "DocumentNode \<Rightarrow> string \<Rightarrow> bool" where
  "directive_applied A n \<longleftrightarrow>
     (\<exists>d \<in> set (definitions A).
        (isTypeDefinitionNode d \<and> Directive n \<in> set (directives d))
      \<or> (has_fields d \<and> (\<exists>f \<in> set (field_list d). Directive n \<in> set (field_directives f)))
      \<or> ((kind d = EnumTypeDefinition \<or> kind d = EnumTypeExtension)
           \<and> (\<exists>v \<in> set (enum_values d). Directive n \<in> set (value_directives v))))"

text \<open>
  For the proofs: the names that one field, and one definition, add to the two arrays,
  written with the \<open>unwrap\<close> of the source.
\<close>

definition field_type_names :: "FieldNode \<Rightarrow> string list" where
  "field_type_names f =
     map (\<lambda>a. type_name (unwrap (input_type a))) (field_arguments f)
     @ [type_name (unwrap (field_type f))]"

definition definition_type_names :: "DefinitionNode \<Rightarrow> string list" where
  "definition_type_names d =
     (if kind d = ObjectTypeDefinition \<or> kind d = ObjectTypeExtension
      then map type_name (interfaces d) else [])
   @ (if has_fields d then concat (map field_type_names (field_list d)) else [])
   @ (if kind d = UnionTypeDefinition \<or> kind d = UnionTypeExtension
      then map (\<lambda>t. type_name (unwrap t)) (types d) else [])"

definition definition_directive_names :: "DefinitionNode \<Rightarrow> string list" where
  "definition_directive_names d =
     (if isTypeDefinitionNode d then map directive_name (directives d) else [])
   @ (if has_fields d
      then concat (map (\<lambda>f. map directive_name (field_directives f)) (field_list d)) else [])
   @ (if kind d = EnumTypeDefinition \<or> kind d = EnumTypeExtension
      then concat (map (\<lambda>v. map directive_name (value_directives v)) (enum_values d)) else [])"

subsection \<open>The graph and the merge order\<close>

text \<open>
  The node names of a graph in the order of insertion, the targets of the edges of a
  node, and the edges of a graph as a relation: \<open>(a, b)\<close> is an edge when a must be
  merged after b.
\<close>

definition keys :: "DepGraph \<Rightarrow> string list" where
  "keys graph = map fst (nodes graph)"

definition targets :: "(string \<times> string list) list \<Rightarrow> string \<Rightarrow> string list" where
  "targets edges node = (case map_of edges node of Some ts \<Rightarrow> ts | None \<Rightarrow> [])"

definition graph_edges :: "DepGraph \<Rightarrow> (string \<times> string) set" where
  "graph_edges graph = {(a, b). b \<in> set (targets (outgoingEdges graph) a)}"

text \<open>
  The dependency edges of a document set (specification, 4.3): the ordered pairs of names
  of documents of different names that the classifier accepts.
\<close>

definition pair_names :: "DocumentNode \<times> DocumentNode \<Rightarrow> string \<times> string" where
  "pair_names p = (source_name (fst p), source_name (snd p))"

definition dependency_relation :: "DocumentNode list \<Rightarrow> (string \<times> string) set" where
  "dependency_relation documents =
     (\<lambda>(A, B). (source_name A, source_name B)) ` set (dependency_pairs documents)"

text \<open>
  \<open>precedes b a order\<close>: b stands before a in the order (specification, 3:
  "for every edge (A, B), B precedes A").
\<close>

definition precedes :: "string \<Rightarrow> string \<Rightarrow> string list \<Rightarrow> bool" where
  "precedes b a order \<longleftrightarrow> (\<exists>xs ys zs. order = xs @ b # ys @ a # zs)"

text \<open>
  The fold of the specification (4.5): the first document becomes the base schema by a
  build from scratch; every later document extends the accumulated schema.
\<close>

fun extend_all :: "'s primitives \<Rightarrow> 's \<Rightarrow> DocumentNode list \<Rightarrow> event list \<times> (error + 's option)" where
  "extend_all env schema [] = ([], Inr (Some schema))"
| "extend_all env schema (document # rest) =
     (case extendSchema env (Some schema) document of
        Inl message \<Rightarrow>
          ([ConsoleLog (''Extending with '' @ source_name document @ ''.'')], Inl (Raised message))
      | Inr schema' \<Rightarrow>
          (case extend_all env schema' rest of
             (events, r) \<Rightarrow>
               (ConsoleLog (''Extending with '' @ source_name document @ ''.'') # events, r)))"

fun base_then_extend :: "'s primitives \<Rightarrow> DocumentNode list \<Rightarrow> event list \<times> (error + 's option)" where
  "base_then_extend env [] = ([], Inr None)"
| "base_then_extend env (first # rest) =
     (case buildASTSchema env first of
        Inl message \<Rightarrow>
          ([ConsoleLog (''Building schema with '' @ source_name first @ ''.'')], Inl (Raised message))
      | Inr base \<Rightarrow>
          (case extend_all env base rest of
             (events, r) \<Rightarrow>
               (ConsoleLog (''Building schema with '' @ source_name first @ ''.'') # events, r)))"

text \<open>
  An event that writes to the console only; the other events touch the file system.
\<close>

fun console_only :: "event \<Rightarrow> bool" where
  "console_only (ConsoleLog s) = True"
| "console_only (ConsoleError s) = True"
| "console_only _ = False"

section \<open>Invariants of the graph and of the search\<close>

text \<open>
  A graph that \<open>addNode\<close> and \<open>addDependency\<close> build: the three objects have the
  same keys, each once; every edge leads to a node; and an incoming edge is an outgoing
  edge of its source.
\<close>

definition wf_graph :: "DepGraph \<Rightarrow> bool" where
  "wf_graph graph \<longleftrightarrow>
     distinct (keys graph)
   \<and> map fst (outgoingEdges graph) = keys graph
   \<and> map fst (incomingEdges graph) = keys graph
   \<and> (\<forall>a b. b \<in> set (targets (outgoingEdges graph) a) \<longrightarrow> b \<in> set (keys graph))
   \<and> (\<forall>a b. a \<in> set (targets (incomingEdges graph) b)
              \<longrightarrow> b \<in> set (targets (outgoingEdges graph) a))"

text \<open>
  The shape of a graph is what \<open>overallOrder\<close> reads: the names and the edges, not
  the documents.
\<close>

definition shape :: "DepGraph \<Rightarrow> string list \<times> (string \<times> string list) list \<times> (string \<times> string list) list" where
  "shape graph = (map fst (nodes graph), outgoingEdges graph, incomingEdges graph)"

definition edge :: "(string \<times> string list) list \<Rightarrow> string \<Rightarrow> string \<Rightarrow> bool" where
  "edge E a b \<longleftrightarrow> b \<in> set (targets E a)"

definition closed_edges :: "(string \<times> string list) list \<Rightarrow> bool" where
  "closed_edges E \<longleftrightarrow> (\<forall>a b. edge E a b \<longrightarrow> b \<in> set (map fst E))"

text \<open>
  \<open>ordered E R\<close>: the targets of every node of the result stand before the node.
\<close>

definition ordered :: "(string \<times> string list) list \<Rightarrow> string list \<Rightarrow> bool" where
  "ordered E R \<longleftrightarrow> (\<forall>i < length R. set (targets E (R ! i)) \<subseteq> set (take i R))"

text \<open>
  A path that a cycle error reports: a walk along the edges whose last node occurs on it
  before.
\<close>

definition cycle_path :: "(string \<times> string list) list \<Rightarrow> string list \<Rightarrow> bool" where
  "cycle_path E p \<longleftrightarrow> successively (edge E) p \<and> p \<noteq> [] \<and> last p \<in> set (butlast p)"

text \<open>
  The invariant of the search, for a current path P and a state (visited, result): the
  visited nodes are those of the path and of the result, which share no node; the path
  is a walk without repetition; the result is ordered and without repetition.
\<close>

definition search_inv :: "(string \<times> string list) list \<Rightarrow> string list
    \<Rightarrow> string list \<times> string list \<Rightarrow> bool" where
  "search_inv E P s \<longleftrightarrow>
     set (fst s) = set P \<union> set (snd s) \<and> distinct P \<and> set P \<inter> set (snd s) = {}
   \<and> set P \<subseteq> set (map fst E) \<and> set (snd s) \<subseteq> set (map fst E)
   \<and> distinct (snd s) \<and> ordered E (snd s) \<and> successively (edge E) P"

text \<open>
  What a search returns: a cycle error with a path as above, or a state that satisfies
  the invariant again, whose result extends the former one and holds the nodes \<open>req\<close>.
\<close>

definition search_result :: "(string \<times> string list) list \<Rightarrow> string list \<Rightarrow> string set
    \<Rightarrow> string list \<times> string list \<Rightarrow> error + string list \<times> string list \<Rightarrow> bool" where
  "search_result E P req s r \<longleftrightarrow>
     (case r of
        Inl e \<Rightarrow> (\<exists>p. e = CycleError p \<and> cycle_path E p)
      | Inr s' \<Rightarrow> search_inv E P s' \<and> req \<subseteq> set (snd s') \<and> set (snd s) \<subseteq> set (snd s'))"

section \<open>Example documents\<close>

definition type_node :: "Kind \<Rightarrow> string \<Rightarrow> FieldNode list \<Rightarrow> DefinitionNode" where
  "type_node k n fs = \<lparr>kind = k, name = n, directives = [], interfaces = [],
     field_list = fs, types = [], enum_values = []\<rparr>"

text \<open>\<open>type Query { ping: String }\<close> and \<open>extend type Query { pong: String }\<close>\<close>

definition base_document :: DocumentNode where
  "base_document = \<lparr>source_name = ''base.graphql'',
     definitions = [type_node ObjectTypeDefinition ''Query''
        [FieldDefinition [] (Named (NamedType ''String'')) []]]\<rparr>"

definition ext_document :: DocumentNode where
  "ext_document = \<lparr>source_name = ''ext.graphql'',
     definitions = [type_node ObjectTypeExtension ''Query''
        [FieldDefinition [] (Named (NamedType ''String'')) []]]\<rparr>"

text \<open>
  \<open>type Query implements Node @key { user(id: [ID!]!): User @auth }\<close>,
  \<open>union SearchResult = User | Post\<close> and \<open>enum Role { ADMIN @hidden }\<close>
\<close>

definition references_document :: DocumentNode where
  "references_document = \<lparr>source_name = ''references.graphql'',
     definitions =
       [\<lparr>kind = ObjectTypeDefinition, name = ''Query'', directives = [Directive ''key''],
         interfaces = [NamedType ''Node''],
         field_list = [FieldDefinition
            [InputValueDefinition
               (NonNullType (ListType (NonNullType (Named (NamedType ''ID''))))) []]
            (Named (NamedType ''User'')) [Directive ''auth'']],
         types = [], enum_values = []\<rparr>,
        \<lparr>kind = UnionTypeDefinition, name = ''SearchResult'', directives = [],
         interfaces = [], field_list = [],
         types = [Named (NamedType ''User''), Named (NamedType ''Post'')], enum_values = []\<rparr>,
        \<lparr>kind = EnumTypeDefinition, name = ''Role'', directives = [],
         interfaces = [], field_list = [], types = [],
         enum_values = [EnumValueDefinition [Directive ''hidden'']]\<rparr>]\<rparr>"

text \<open>
  \<open>x.graphql\<close> defines X and extends Y, \<open>y.graphql\<close> defines Y and extends X.
\<close>

definition x_document :: DocumentNode where
  "x_document = \<lparr>source_name = ''x.graphql'',
     definitions = [type_node ObjectTypeDefinition ''X'' [], type_node ObjectTypeExtension ''Y'' []]\<rparr>"

definition y_document :: DocumentNode where
  "y_document = \<lparr>source_name = ''y.graphql'',
     definitions = [type_node ObjectTypeDefinition ''Y'' [], type_node ObjectTypeExtension ''X'' []]\<rparr>"

text \<open>
  A document that neither extends nor references anything of \<open>base.graphql\<close>, and
  another document of the name \<open>ext.graphql\<close>, which extends \<open>Query\<close> too, by
  another field.
\<close>

definition other_document :: DocumentNode where
  "other_document = \<lparr>source_name = ''other.graphql'',
     definitions = [type_node ObjectTypeDefinition ''Other''
        [FieldDefinition [] (Named (NamedType ''Boolean'')) []]]\<rparr>"

definition ext2_document :: DocumentNode where
  "ext2_document = \<lparr>source_name = ''ext.graphql'',
     definitions = [type_node ObjectTypeExtension ''Query''
        [FieldDefinition [] (Named (NamedType ''Int'')) [Directive ''deprecated'']]]\<rparr>"

text \<open>
  \<open>directive @foo on FIELD_DEFINITION\<close> and \<open>type Thing { label: String @foo }\<close> in
  one document: the document references its own directive.
\<close>

definition self_document :: DocumentNode where
  "self_document = \<lparr>source_name = ''a.graphql'',
     definitions =
       [\<lparr>kind = DirectiveDefinition, name = ''foo'', directives = [], interfaces = [],
         field_list = [], types = [], enum_values = []\<rparr>,
        type_node ObjectTypeDefinition ''Thing''
          [FieldDefinition [] (Named (NamedType ''String'')) [Directive ''foo'']]]\<rparr>"

text \<open>
  Primitives for the examples. A schema is the list of the names of the definitions
  merged so far; it is always valid, and it is printed name by name. The second set of
  primitives reports two violations for every schema.
\<close>

definition example_env :: "string list primitives" where
  "example_env = \<lparr>
     buildASTSchema = (\<lambda>document. Inr (map name (definitions document))),
     extendSchema = (\<lambda>schema document.
        case schema of None \<Rightarrow> Inl ''no schema''
        | Some names \<Rightarrow> Inr (names @ map name (definitions document))),
     validateSchema = (\<lambda>schema. case schema of None \<Rightarrow> Inl ''no schema'' | Some names \<Rightarrow> Inr []),
     printSchema = (\<lambda>schema.
        case schema of None \<Rightarrow> Inl ''no schema''
        | Some names \<Rightarrow> Inr (concat (map (\<lambda>n. n @ '';'') names))),
     existsSync = (\<lambda>path. False),
     dirname = (\<lambda>path. ''out''),
     relative = (\<lambda>from to. to)\<rparr>"

definition rejecting_env :: "string list primitives" where
  "rejecting_env = example_env\<lparr>validateSchema :=
     (\<lambda>schema. Inr [''Query root type must be provided.'', ''Type Shadow must define one or more fields.''])\<rparr>"

text \<open>
  Primitives that differ from the ones above on the null schema. The first set does
  what the graphql package does: \<open>validateSchema\<close> asserts that its argument is a
  schema and throws for null. The second set accepts null and prints it.
\<close>

definition strict_env :: "string list primitives" where
  "strict_env = example_env\<lparr>validateSchema :=
     (\<lambda>schema. case schema of
        None \<Rightarrow> Inl ''Expected null to be a GraphQL schema.''
      | Some names \<Rightarrow> Inr [])\<rparr>"

definition lenient_env :: "string list primitives" where
  "lenient_env = example_env\<lparr>
     validateSchema := (\<lambda>schema. Inr []),
     printSchema := (\<lambda>schema. case schema of
        None \<Rightarrow> Inr ''null''
      | Some names \<Rightarrow> Inr (concat (map (\<lambda>n. n @ '';'') names)))\<rparr>"

section \<open>Properties of the classifier\<close>

text \<open>
  On the nodes that the two filters of \<open>hasExtensionsFor\<close> let through, the regular
  expressions always match, so the source never reads the group of a null match and
  \<open>extension_matches\<close> never compares two missing matches.
\<close>

lemma exec_stem_Definition:
  "isTypeSystemDefinitionNode d \<Longrightarrow> exec_stem ''Definition'' (kind_string (kind d)) \<noteq> None"
  by (cases "kind d")
     (simp_all add: isTypeSystemDefinitionNode_def isTypeDefinitionNode_def exec_stem_def
        line_terminator_def)

lemma exec_stem_Extension:
  "isTypeSystemExtensionNode e \<Longrightarrow> exec_stem ''Extension'' (kind_string (kind e)) \<noteq> None"
  by (cases "kind e")
     (simp_all add: isTypeSystemExtensionNode_def isTypeExtensionNode_def exec_stem_def
        line_terminator_def)

lemma extension_matches_iff:
  assumes "isTypeSystemExtensionNode e" and "isTypeSystemDefinitionNode d"
  shows "extension_matches e d \<longleftrightarrow>
     (kind e = SchemaExtension \<and> kind d = SchemaDefinition)
   \<or> (\<exists>c. c \<noteq> Schema \<and> extension_category (kind e) = Some c
          \<and> definition_category (kind d) = Some c \<and> name e = name d)"
  using assms
  by (cases "kind e"; cases "kind d")
     (simp_all add: isTypeSystemExtensionNode_def isTypeExtensionNode_def
        isTypeSystemDefinitionNode_def isTypeDefinitionNode_def
        extension_matches_def exec_stem_def line_terminator_def eq_commute)

lemma category_filters:
  "extension_category (kind e) = Some c \<Longrightarrow> isTypeSystemExtensionNode e"
  "definition_category (kind d) = Some c \<Longrightarrow> isTypeSystemDefinitionNode d"
  by (cases "kind e"; simp add: isTypeSystemExtensionNode_def isTypeExtensionNode_def)
     (cases "kind d"; simp add: isTypeSystemDefinitionNode_def isTypeDefinitionNode_def)

text \<open>
  Claim C4. \<open>hasExtensionsFor A B\<close> holds if A declares a schema extension and B a
  schema definition, whatever the names; otherwise it holds exactly when A declares an
  extension whose category and name are those of a definition in B; in every other case
  it is false.
\<close>

theorem hasExtensionsFor_spec:
  "hasExtensionsFor A B \<longleftrightarrow> schema_extends A B \<or> named_extends A B"
proof
  assume "hasExtensionsFor A B"
  then obtain e d where e: "e \<in> set (definitions A)" "isTypeSystemExtensionNode e"
    and d: "d \<in> set (definitions B)" "isTypeSystemDefinitionNode d"
    and m: "extension_matches e d"
    by (auto simp: hasExtensionsFor_def list_ex_iff)
  from m e(2) d(2) show "schema_extends A B \<or> named_extends A B"
    unfolding extension_matches_iff [OF e(2) d(2)] schema_extends_def named_extends_def
    using e(1) d(1) by blast
next
  assume r: "schema_extends A B \<or> named_extends A B"
  then obtain e d where e: "e \<in> set (definitions A)" and d: "d \<in> set (definitions B)"
    and c: "(kind e = SchemaExtension \<and> kind d = SchemaDefinition)
          \<or> (\<exists>c. c \<noteq> Schema \<and> extension_category (kind e) = Some c
              \<and> definition_category (kind d) = Some c \<and> name e = name d)"
    unfolding schema_extends_def named_extends_def by blast
  from c have fe: "isTypeSystemExtensionNode e"
    by (cases "kind e") (auto simp: isTypeSystemExtensionNode_def isTypeExtensionNode_def)
  from c have fd: "isTypeSystemDefinitionNode d"
    by (cases "kind d") (auto simp: isTypeSystemDefinitionNode_def isTypeDefinitionNode_def)
  from c have "extension_matches e d"
    unfolding extension_matches_iff [OF fe fd] .
  with e d fe fd show "hasExtensionsFor A B"
    by (auto simp: hasExtensionsFor_def list_ex_iff)
qed

theorem hasExtensionsFor_spec_witness:
  "named_extends ext_document base_document \<and> \<not> schema_extends ext_document base_document
   \<and> hasExtensionsFor ext_document base_document
   \<and> \<not> hasExtensionsFor base_document ext_document"
proof -
  have 1: "named_extends ext_document base_document"
    by (simp add: named_extends_def ext_document_def base_document_def type_node_def)
  have 2: "\<not> schema_extends ext_document base_document"
    by (simp add: schema_extends_def ext_document_def base_document_def type_node_def)
  have 3: "\<not> named_extends base_document ext_document"
    by (simp add: named_extends_def ext_document_def base_document_def type_node_def)
  have 4: "\<not> schema_extends base_document ext_document"
    by (simp add: schema_extends_def ext_document_def base_document_def type_node_def)
  from 1 2 3 4 hasExtensionsFor_spec [of ext_document base_document]
    hasExtensionsFor_spec [of base_document ext_document]
  show ?thesis by blast
qed

subsection \<open>Reference extraction\<close>

lemma collect_field_eq:
  "collect_field f (ts, ds) = (ts @ field_type_names f, ds @ map directive_name (field_directives f))"
  by (cases f) (simp_all add: collect_field_def field_type_names_def)

lemma fold_collect_field:
  "fold collect_field fs (ts, ds)
   = (ts @ concat (map field_type_names fs),
      ds @ concat (map (\<lambda>f. map directive_name (field_directives f)) fs))"
  by (induction fs arbitrary: ts ds) (simp_all add: collect_field_eq)

lemma foldl_concat_names:
  "foldl (\<lambda>names v. names @ g v) acc vs = acc @ concat (map g vs)"
  by (induction vs arbitrary: acc) simp_all

lemma collect_eq:
  "collect d (ts, ds) = (ts @ definition_type_names d, ds @ definition_directive_names d)"
  by (simp add: collect_def definition_type_names_def definition_directive_names_def
        has_fields_def fold_collect_field foldl_concat_names)

lemma fold_collect:
  "fold collect defs (ts, ds)
   = (ts @ concat (map definition_type_names defs),
      ds @ concat (map definition_directive_names defs))"
  by (induction defs arbitrary: ts ds) (simp_all add: collect_eq)

lemma typeNames_eq: "typeNames A = concat (map definition_type_names (definitions A))"
  by (simp add: typeNames_def references_def fold_collect)

lemma directiveNames_eq:
  "directiveNames A = concat (map definition_directive_names (definitions A))"
  by (simp add: directiveNames_def references_def fold_collect)

text \<open>
  \<open>unwrap\<close> takes the wrappers off again, and every type reference is a named type
  under wrappers, so the names that the source computes with \<open>unwrap\<close> are the
  names in the sense of the specification.
\<close>

lemma unwrap_wrap: "unwrap (wrap ws named) = named"
  by (induction ws named rule: wrap.induct) simp_all

lemma wrap_unwrap: "\<exists>ws. t = wrap ws (unwrap t)"
proof (induction t)
  case (Named n)
  have "Named n = wrap [] n" by simp
  then show ?case by (metis unwrap.simps(1))
next
  case (ListType t)
  then obtain ws where "t = wrap ws (unwrap t)" by blast
  then have "ListType t = wrap (ListOf # ws) (unwrap (ListType t))" by simp
  then show ?case by blast
next
  case (NonNullType t)
  then obtain ws where "t = wrap ws (unwrap t)" by blast
  then have "NonNullType t = wrap (NonNull # ws) (unwrap (NonNullType t))" by simp
  then show ?case by blast
qed

lemma names_type_unwrap: "names_type t n \<longleftrightarrow> type_name (unwrap t) = n"
proof
  assume "names_type t n"
  then show "type_name (unwrap t) = n" by (auto simp: names_type_def unwrap_wrap)
next
  assume n: "type_name (unwrap t) = n"
  from wrap_unwrap [of t] obtain ws where "t = wrap ws (unwrap t)" by blast
  moreover from n have "unwrap t = NamedType n" by (cases "unwrap t") simp
  ultimately show "names_type t n" unfolding names_type_def by metis
qed

lemma in_type_names: "NamedType n \<in> set xs \<longleftrightarrow> n \<in> type_name ` set xs"
  by (force simp: image_iff)

lemma in_directive_names: "Directive n \<in> set xs \<longleftrightarrow> n \<in> directive_name ` set xs"
  by (force simp: image_iff)

lemma set_definition_type_names:
  "n \<in> set (definition_type_names d) \<longleftrightarrow>
      (has_fields d \<and>
           (\<exists>f \<in> set (field_list d).
              names_type (field_type f) n
            \<or> (\<exists>a \<in> set (field_arguments f). names_type (input_type a) n)))
      \<or> ((kind d = ObjectTypeDefinition \<or> kind d = ObjectTypeExtension)
           \<and> NamedType n \<in> set (interfaces d))
      \<or> ((kind d = UnionTypeDefinition \<or> kind d = UnionTypeExtension)
           \<and> (\<exists>t \<in> set (types d). names_type t n))"
  unfolding in_type_names names_type_unwrap
  by (auto simp: definition_type_names_def field_type_names_def)

lemma set_definition_directive_names:
  "n \<in> set (definition_directive_names d) \<longleftrightarrow>
        (isTypeDefinitionNode d \<and> Directive n \<in> set (directives d))
      \<or> (has_fields d \<and> (\<exists>f \<in> set (field_list d). Directive n \<in> set (field_directives f)))
      \<or> ((kind d = EnumTypeDefinition \<or> kind d = EnumTypeExtension)
           \<and> (\<exists>v \<in> set (enum_values d). Directive n \<in> set (value_directives v)))"
  unfolding in_directive_names
  by (auto simp: definition_directive_names_def)

text \<open>
  Claim C5. The array \<open>typeNames\<close> that \<open>hasTypesFor\<close> builds for a document
  holds a name exactly when it is, with any list and non-null wrappers taken off, the
  type of a field or of an argument of a field of a definition or extension of an
  object, interface or input object type, or an interface that a definition or extension
  of an object type implements, or a member of a definition or extension of a union. The
  array \<open>directiveNames\<close> holds a name exactly when it is the name of a directive on a
  type definition, on a field of one of the definitions or extensions above, or on a
  value of a definition or extension of an enum. Every type reference is a named type
  under wrappers, so no field, argument or member is missed.
\<close>

theorem references_collected:
  "(n \<in> set (typeNames A) \<longleftrightarrow> type_referenced A n)
   \<and> (n \<in> set (directiveNames A) \<longleftrightarrow> directive_applied A n)
   \<and> (\<exists>ws named. t = wrap ws named)"
proof (intro conjI)
  show "n \<in> set (typeNames A) \<longleftrightarrow> type_referenced A n"
    unfolding type_referenced_def typeNames_eq
    by (simp add: set_definition_type_names)
  show "n \<in> set (directiveNames A) \<longleftrightarrow> directive_applied A n"
    unfolding directive_applied_def directiveNames_eq
    by (simp add: set_definition_directive_names)
  from wrap_unwrap [of t] show "\<exists>ws named. t = wrap ws named" by blast
qed

theorem references_collected_witness:
  "NonNullType (ListType (NonNullType (Named (NamedType ''ID''))))
     = wrap [NonNull, ListOf, NonNull] (NamedType ''ID'')
   \<and> type_referenced references_document ''ID''
   \<and> ''ID'' \<in> set (typeNames references_document)
   \<and> type_referenced references_document ''Node''
   \<and> ''Node'' \<in> set (typeNames references_document)
   \<and> type_referenced references_document ''Post''
   \<and> ''Post'' \<in> set (typeNames references_document)
   \<and> directive_applied references_document ''key''
   \<and> ''key'' \<in> set (directiveNames references_document)
   \<and> directive_applied references_document ''auth''
   \<and> ''auth'' \<in> set (directiveNames references_document)
   \<and> directive_applied references_document ''hidden''
   \<and> ''hidden'' \<in> set (directiveNames references_document)
   \<and> typeNames references_document = [''Node'', ''ID'', ''User'', ''User'', ''Post'']
   \<and> \<not> type_referenced references_document ''Query''"
proof -
  have w: "NonNullType (ListType (NonNullType (Named (NamedType ''ID''))))
     = wrap [NonNull, ListOf, NonNull] (NamedType ''ID'')" by simp
  then have "names_type (NonNullType (ListType (NonNullType (Named (NamedType ''ID''))))) ''ID''"
    unfolding names_type_def by (rule exI)
  then have i: "type_referenced references_document ''ID''"
    by (simp add: type_referenced_def references_document_def has_fields_def)
  have "names_type (Named (NamedType ''Post'')) ''Post''"
    unfolding names_type_def by (rule exI [of _ "[]"]) simp
  then have p: "type_referenced references_document ''Post''"
    by (simp add: type_referenced_def references_document_def has_fields_def)
  have n: "type_referenced references_document ''Node''"
    by (simp add: type_referenced_def references_document_def has_fields_def)
  have k: "directive_applied references_document ''key''"
    by (simp add: directive_applied_def references_document_def isTypeDefinitionNode_def)
  have a: "directive_applied references_document ''auth''"
    by (simp add: directive_applied_def references_document_def has_fields_def)
  have h: "directive_applied references_document ''hidden''"
    by (simp add: directive_applied_def references_document_def)
  have t: "typeNames references_document = [''Node'', ''ID'', ''User'', ''User'', ''Post'']"
    by (simp add: typeNames_def references_def collect_def collect_field_def
          references_document_def isTypeDefinitionNode_def)
  have "''Query'' \<notin> set (typeNames references_document)" unfolding t by simp
  with references_collected [of "''Query''" references_document]
  have q: "\<not> type_referenced references_document ''Query''" by blast
  from references_collected [of "''ID''" references_document] i
    references_collected [of "''Node''" references_document] n
    references_collected [of "''Post''" references_document] p
    references_collected [of "''key''" references_document] k
    references_collected [of "''auth''" references_document] a
    references_collected [of "''hidden''" references_document] h
    w t q
  show ?thesis by blast
qed

section \<open>Properties of the graph\<close>

text \<open>
  Every graph that \<open>build\<close> makes satisfies the invariant, holds the names of the
  documents as nodes and exactly the dependency edges, and no call of
  \<open>addDependency\<close> fails, because the nodes are added first.
\<close>

lemma map_fst_map_entry: "map fst (AList.map_entry k f xs) = map fst xs"
  by (induction xs) auto

lemma targets_append_fresh: "targets (edges @ [(n, [])]) a = targets edges a"
proof (cases "map_of edges a")
  case None
  then show ?thesis by (simp add: targets_def map_add_def)
next
  case (Some ts)
  then show ?thesis by (simp add: targets_def map_add_def)
qed

lemma targets_map_entry:
  "k \<in> set (map fst edges) \<Longrightarrow>
   targets (AList.map_entry k f edges) a = (if a = k then f (targets edges k) else targets edges a)"
  by (auto simp: targets_def map_of_map_entry map_of_eq_None_iff image_iff split: option.splits)

lemma targets_in_keys: "b \<in> set (targets edges a) \<Longrightarrow> a \<in> set (map fst edges)"
proof -
  assume "b \<in> set (targets edges a)"
  then obtain ts where "map_of edges a = Some ts"
    by (cases "map_of edges a") (simp_all add: targets_def)
  then have "(a, ts) \<in> set edges" by (rule map_of_SomeD)
  then show ?thesis by force
qed

lemma wf_new: "wf_graph new_DepGraph"
  by (simp add: wf_graph_def new_DepGraph_def keys_def targets_def)

lemma wf_addNode: "wf_graph g \<Longrightarrow> wf_graph (addNode g n d)"
  by (auto simp: wf_graph_def addNode_def hasNode_def keys_def targets_append_fresh)

lemma keys_addNode:
  "keys (addNode g n d) = (if n \<in> set (keys g) then keys g else keys g @ [n])"
  by (simp add: addNode_def hasNode_def keys_def)

lemma edges_addNode: "wf_graph g \<Longrightarrow> graph_edges (addNode g n d) = graph_edges g"
  by (auto simp: graph_edges_def wf_graph_def addNode_def hasNode_def keys_def targets_append_fresh)

lemma addDependency_Inr:
  "a \<in> set (keys g) \<Longrightarrow> b \<in> set (keys g) \<Longrightarrow>
   addDependency g a b = Inr (g\<lparr>
        outgoingEdges := AList.map_entry a (push_new b) (outgoingEdges g),
        incomingEdges := AList.map_entry b (push_new a) (incomingEdges g)\<rparr>)"
  by (simp add: addDependency_def hasNode_def keys_def)

lemma set_push_new: "set (push_new x xs) = insert x (set xs)"
  by (auto simp: push_new_def)

lemma wf_addDependency:
  assumes "wf_graph g" "addDependency g a b = Inr g'"
  shows "wf_graph g' \<and> nodes g' = nodes g \<and> graph_edges g' = insert (a, b) (graph_edges g)"
proof -
  from assms(2) have a: "a \<in> set (keys g)" and b: "b \<in> set (keys g)"
    by (auto simp: addDependency_def hasNode_def keys_def split: if_splits)
  from assms(2) have g': "g' = g\<lparr>
        outgoingEdges := AList.map_entry a (push_new b) (outgoingEdges g),
        incomingEdges := AList.map_entry b (push_new a) (incomingEdges g)\<rparr>"
    using addDependency_Inr [OF a b] by simp
  from assms(1) have ko: "map fst (outgoingEdges g) = keys g"
    and ki: "map fst (incomingEdges g) = keys g"
    by (simp_all add: wf_graph_def)
  have to: "targets (outgoingEdges g') x
      = (if x = a then push_new b (targets (outgoingEdges g) a) else targets (outgoingEdges g) x)" for x
    using a ko by (simp add: g' targets_map_entry)
  have ti: "targets (incomingEdges g') x
      = (if x = b then push_new a (targets (incomingEdges g) b) else targets (incomingEdges g) x)" for x
    using b ki by (simp add: g' targets_map_entry)
  have k: "keys g' = keys g" by (simp add: g' keys_def)
  have "wf_graph g'"
    using assms(1) a b unfolding wf_graph_def k to ti
    by (auto simp: g' map_fst_map_entry set_push_new)
  moreover have "nodes g' = nodes g" by (simp add: g')
  moreover have "graph_edges g' = insert (a, b) (graph_edges g)"
    unfolding graph_edges_def to by (auto simp: set_push_new split: if_splits)
  ultimately show ?thesis by blast
qed

lemma fold_add_nodes:
  "fold (\<lambda>document (events, graph).
             (events @ [ConsoleLog (''Adding '' @ source_name document)],
              addNode graph (source_name document) document)) documents (ev, g) = (ev', g')
   \<Longrightarrow> wf_graph g \<Longrightarrow> list_all console_only ev
   \<Longrightarrow> wf_graph g' \<and> list_all console_only ev'
       \<and> set (keys g') = set (keys g) \<union> source_name ` set documents
       \<and> graph_edges g' = graph_edges g"
proof (induction documents arbitrary: ev g)
  case Nil
  then show ?case by simp
next
  case (Cons d ds)
  from Cons.prems(1) have
    "fold (\<lambda>document (events, graph).
             (events @ [ConsoleLog (''Adding '' @ source_name document)],
              addNode graph (source_name document) document)) ds
       (ev @ [ConsoleLog (''Adding '' @ source_name d)], addNode g (source_name d) d) = (ev', g')"
    by simp
  from Cons.IH [OF this] Cons.prems(2,3)
  show ?case by (auto simp: wf_addNode edges_addNode keys_addNode)
qed

lemma add_nodes_props:
  assumes "add_nodes documents = (ev, g)"
  shows "wf_graph g" "list_all console_only ev"
    "set (keys g) = source_name ` set documents" "graph_edges g = {}"
proof -
  have e: "graph_edges new_DepGraph = {}" "keys new_DepGraph = []"
    by (simp_all add: graph_edges_def new_DepGraph_def targets_def keys_def)
  from fold_add_nodes [OF assms [unfolded add_nodes_def] wf_new] e
  show "wf_graph g" "list_all console_only ev"
    "set (keys g) = source_name ` set documents" "graph_edges g = {}"
    by simp_all
qed

lemma add_dependencies_props:
  assumes "wf_graph g"
    and "\<forall>(A, B) \<in> set pairs. source_name A \<in> set (keys g) \<and> source_name B \<in> set (keys g)"
  shows "\<exists>ev g'. add_dependencies pairs g = (ev, Inr g') \<and> list_all console_only ev
       \<and> wf_graph g' \<and> nodes g' = nodes g
       \<and> graph_edges g' = graph_edges g \<union> (\<lambda>(A, B). (source_name A, source_name B)) ` set pairs"
  using assms
proof (induction pairs arbitrary: g)
  case Nil
  then show ?case by simp
next
  case (Cons p pairs)
  obtain A B where p: "p = (A, B)" by (cases p)
  from Cons.prems(2) p have a: "source_name A \<in> set (keys g)" and b: "source_name B \<in> set (keys g)"
    by auto
  from addDependency_Inr [OF a b] obtain g1 where
    g1: "addDependency g (source_name A) (source_name B) = Inr g1" by blast
  from wf_addDependency [OF Cons.prems(1) g1] have w1: "wf_graph g1" and n1: "nodes g1 = nodes g"
    and e1: "graph_edges g1 = insert (source_name A, source_name B) (graph_edges g)"
    by blast+
  from n1 have k1: "keys g1 = keys g" by (simp add: keys_def)
  from Cons.prems(2) have "\<forall>(A, B) \<in> set pairs. source_name A \<in> set (keys g1) \<and> source_name B \<in> set (keys g1)"
    by (simp add: k1)
  from Cons.IH [OF w1 this] obtain ev g' where
    r: "add_dependencies pairs g1 = (ev, Inr g')" "list_all console_only ev" "wf_graph g'"
      "nodes g' = nodes g1"
      "graph_edges g' = graph_edges g1 \<union> (\<lambda>(A, B). (source_name A, source_name B)) ` set pairs"
    by blast
  show ?case
    using r g1 n1 e1 by (auto simp: p)
qed

lemma dependency_pairs_members:
  "(A, B) \<in> set (dependency_pairs documents) \<longleftrightarrow>
     A \<in> set documents \<and> B \<in> set documents \<and> source_name B \<noteq> source_name A \<and> isDependentOn A B"
  by (auto simp: dependency_pairs_def)

lemma build_graph_props:
  "\<exists>ev g. build_graph documents = (ev, Inr g) \<and> list_all console_only ev \<and> wf_graph g
     \<and> set (keys g) = source_name ` set documents
     \<and> graph_edges g = dependency_relation documents"
proof -
  obtain ev0 g0 where a: "add_nodes documents = (ev0, g0)" by (cases "add_nodes documents")
  note p = add_nodes_props [OF a]
  have "\<forall>(A, B) \<in> set (dependency_pairs documents).
          source_name A \<in> set (keys g0) \<and> source_name B \<in> set (keys g0)"
    by (auto simp: p(3) dependency_pairs_members)
  from add_dependencies_props [OF p(1) this] obtain ev g' where
    r: "add_dependencies (dependency_pairs documents) g0 = (ev, Inr g')" "list_all console_only ev"
      "wf_graph g'" "nodes g' = nodes g0"
      "graph_edges g' = graph_edges g0 \<union> (\<lambda>(A, B). (source_name A, source_name B)) ` set (dependency_pairs documents)"
    by blast
  from r(4) have "keys g' = keys g0" by (simp add: keys_def)
  with a r p show ?thesis
    by (simp add: build_graph_def dependency_relation_def)
qed

text \<open>
  The node of a name holds the first document of that name.
\<close>

lemma map_of_addNode:
  "map_of (nodes (addNode g n d)) x
   = (case map_of (nodes g) x of Some v \<Rightarrow> Some v | None \<Rightarrow> if x = n then Some d else None)"
proof (cases "hasNode g n")
  case True
  then have "map_of (nodes g) n \<noteq> None"
    by (simp add: hasNode_def map_of_eq_None_iff)
  with True show ?thesis by (auto simp: addNode_def split: option.splits)
next
  case False
  then show ?thesis by (auto simp: addNode_def map_add_def split: option.splits)
qed

lemma fold_add_nodes_payload:
  "fold (\<lambda>document (events, graph).
             (events @ [ConsoleLog (''Adding '' @ source_name document)],
              addNode graph (source_name document) document)) documents (ev, g) = (ev', g')
   \<Longrightarrow> map_of (nodes g') x
       = (case map_of (nodes g) x of Some v \<Rightarrow> Some v
          | None \<Rightarrow> find (\<lambda>d. source_name d = x) documents)"
proof (induction documents arbitrary: ev g)
  case Nil
  then show ?case by (simp split: option.splits)
next
  case (Cons d ds)
  from Cons.prems have
    "fold (\<lambda>document (events, graph).
             (events @ [ConsoleLog (''Adding '' @ source_name document)],
              addNode graph (source_name document) document)) ds
       (ev @ [ConsoleLog (''Adding '' @ source_name d)], addNode g (source_name d) d) = (ev', g')"
    by simp
  from Cons.IH [OF this] show ?case
    by (auto simp: map_of_addNode split: option.splits)
qed

lemma add_nodes_payload:
  "add_nodes documents = (ev, g) \<Longrightarrow>
   map_of (nodes g) x = find (\<lambda>d. source_name d = x) documents"
  using fold_add_nodes_payload [of documents "[]" new_DepGraph ev g x]
  by (simp add: add_nodes_def new_DepGraph_def)

lemma build_graph_payload:
  assumes "build_graph documents = (ev, Inr g)"
  shows "map_of (nodes g) x = find (\<lambda>d. source_name d = x) documents"
proof -
  obtain ev0 g0 where a: "add_nodes documents = (ev0, g0)" by (cases "add_nodes documents")
  note p = add_nodes_props [OF a]
  have "\<forall>(A, B) \<in> set (dependency_pairs documents).
          source_name A \<in> set (keys g0) \<and> source_name B \<in> set (keys g0)"
    by (auto simp: p(3) dependency_pairs_members)
  from add_dependencies_props [OF p(1) this] obtain ev1 g1 where
    r: "add_dependencies (dependency_pairs documents) g0 = (ev1, Inr g1)" "nodes g1 = nodes g0"
    by blast
  with a assms have "g = g1" by (simp add: build_graph_def)
  with r(2) add_nodes_payload [OF a] show ?thesis by simp
qed

lemma getNodeDatas_found:
  assumes "\<forall>n \<in> set order. map_of (nodes g) n \<noteq> None"
  shows "\<exists>ds. getNodeDatas g order = Inr ds
           \<and> list_all2 (\<lambda>n d. map_of (nodes g) n = Some d) order ds"
  using assms
proof (induction order)
  case Nil
  then show ?case by simp
next
  case (Cons n order)
  then obtain d where d: "map_of (nodes g) n = Some d" by auto
  from Cons obtain ds where "getNodeDatas g order = Inr ds"
    "list_all2 (\<lambda>n d. map_of (nodes g) n = Some d) order ds" by auto
  with d show ?case by (simp add: getNodeData_def)
qed

text \<open>
  The graph of two lists of documents has the same shape when the names and the
  accepted pairs of names are the same.
\<close>

lemma shape_addNode:
  "shape g = shape g' \<Longrightarrow> shape (addNode g n d) = shape (addNode g' n d')"
  by (auto simp: shape_def addNode_def hasNode_def)

lemma shape_addDependency:
  "shape g = shape g' \<Longrightarrow>
   map_sum id shape (addDependency g a b) = map_sum id shape (addDependency g' a b)"
  by (auto simp: shape_def addDependency_def hasNode_def)

lemma shape_overallOrder:
  assumes "shape g = shape g'"
  shows "overallOrder g = overallOrder g'"
proof -
  from assms have a: "map fst (nodes g) = map fst (nodes g')"
    "outgoingEdges g = outgoingEdges g'" "incomingEdges g = incomingEdges g'"
    by (simp_all add: shape_def)
  show ?thesis unfolding overallOrder_def a by (rule refl)
qed

lemma shape_fold_add_nodes:
  "map source_name ds = map source_name ds' \<Longrightarrow> shape g = shape g' \<Longrightarrow>
   shape (snd (fold (\<lambda>document (events, graph).
             (events @ [ConsoleLog (''Adding '' @ source_name document)],
              addNode graph (source_name document) document)) ds (ev, g)))
   = shape (snd (fold (\<lambda>document (events, graph).
             (events @ [ConsoleLog (''Adding '' @ source_name document)],
              addNode graph (source_name document) document)) ds' (ev', g')))"
proof (induction ds arbitrary: ds' g g' ev ev')
  case Nil
  then show ?case by simp
next
  case (Cons d ds)
  then obtain d' ds'' where ds': "ds' = d' # ds''" "source_name d = source_name d'"
    "map source_name ds = map source_name ds''" by (cases ds') auto
  from shape_addNode [OF Cons.prems(2), of "source_name d" d d']
  have "shape (addNode g (source_name d) d) = shape (addNode g' (source_name d') d')"
    by (simp add: ds'(2))
  from Cons.IH [OF ds'(3) this] show ?case by (simp add: ds')
qed

lemma shape_add_dependencies:
  "map pair_names ps = map pair_names ps' \<Longrightarrow> shape g = shape g' \<Longrightarrow>
   map_sum id shape (snd (add_dependencies ps g)) = map_sum id shape (snd (add_dependencies ps' g'))"
proof (induction ps arbitrary: ps' g g')
  case Nil
  then show ?case by simp
next
  case (Cons p ps)
  then obtain p' ps'' where ps': "ps' = p' # ps''" "pair_names p = pair_names p'"
    "map pair_names ps = map pair_names ps''" by (cases ps') auto
  obtain A B where p: "p = (A, B)" by (cases p)
  obtain A' B' where p': "p' = (A', B')" by (cases p')
  from ps'(2) p p' have n: "source_name A = source_name A'" "source_name B = source_name B'"
    by (simp_all add: pair_names_def)
  note s = shape_addDependency [OF Cons.prems(2), of "source_name A" "source_name B"]
  show ?case
  proof (cases "addDependency g (source_name A) (source_name B)")
    case (Inl e)
    with s obtain e' where "addDependency g' (source_name A) (source_name B) = Inl e'" "e' = e"
      by (cases "addDependency g' (source_name A) (source_name B)") auto
    with Inl show ?thesis by (simp add: ps' p p' n [symmetric])
  next
    case (Inr g1)
    with s obtain g1' where g1': "addDependency g' (source_name A) (source_name B) = Inr g1'"
      "shape g1 = shape g1'"
      by (cases "addDependency g' (source_name A) (source_name B)") auto
    from Cons.IH [OF ps'(3) g1'(2)] Inr g1'(1) show ?thesis
      by (simp add: ps' p p' n [symmetric] case_prod_beta)
  qed
qed

section \<open>Properties of the search\<close>

lemma ordered_snoc:
  "ordered E R \<Longrightarrow> set (targets E n) \<subseteq> set R \<Longrightarrow> ordered E (R @ [n])"
  unfolding ordered_def
proof (intro allI impI)
  fix i assume o: "\<forall>i<length R. set (targets E (R ! i)) \<subseteq> set (take i R)"
    and t: "set (targets E n) \<subseteq> set R" and i: "i < length (R @ [n])"
  show "set (targets E ((R @ [n]) ! i)) \<subseteq> set (take i (R @ [n]))"
  proof (cases "i < length R")
    case True
    with o show ?thesis by (simp add: nth_append)
  next
    case False
    with i have "i = length R" by simp
    with t show ?thesis by simp
  qed
qed

lemma path_bound:
  assumes "distinct P" "set P \<subseteq> set (map fst E)" "n \<in> set (map fst E)" "n \<notin> set P"
  shows "length P < length E"
proof -
  have "length (n # P) = card (set (n # P))"
    using assms(1,4) by (simp add: distinct_card)
  also have "\<dots> \<le> card (set (map fst E))"
    using assms(2,3) by (intro card_mono) auto
  also have "\<dots> \<le> length (map fst E)" by (rule card_length)
  finally show ?thesis by simp
qed

text \<open>
  The search keeps its invariant, and the bound on the depth is never reached: a path
  has no repetition and holds nodes of the graph only, so it is shorter than the number
  of nodes.
\<close>

lemma DFS_search:
  "closed_edges E \<Longrightarrow> search_inv E P s \<Longrightarrow> n \<in> set (map fst E) \<Longrightarrow> n \<notin> set (fst s)
     \<Longrightarrow> successively (edge E) (P @ [n]) \<Longrightarrow> length E \<le> length P + k
     \<Longrightarrow> search_result E P {n} s (DFS k E P n s)"
  and DFS_forEach_search:
  "closed_edges E \<Longrightarrow> search_inv E P s \<Longrightarrow> set ts \<subseteq> set (map fst E)
     \<Longrightarrow> \<forall>t \<in> set ts. successively (edge E) (P @ [t]) \<Longrightarrow> length E \<le> length P + k
     \<Longrightarrow> search_result E P (set ts) s (DFS_forEach k E P ts s)"
proof (induction k E P n s and k E P ts s rule: DFS_DFS_forEach.induct)
  case (1 E P n s)
  from "1.prems" have "distinct P" "set P \<subseteq> set (map fst E)" "n \<notin> set P"
    by (auto simp: search_inv_def)
  from path_bound [OF this(1,2) "1.prems"(3) this(3)] "1.prems"(6)
  show ?case by simp
next
  case (2 k E P n V R)
  from "2.prems"(3) obtain ts where ts: "map_of E n = Some ts"
    by (cases "map_of E n") (auto simp: map_of_eq_None_iff)
  then have tg: "targets E n = ts" by (simp add: targets_def)
  from "2.prems"(2,4) have inv: "set V = set P \<union> set R" "distinct P" "set P \<inter> set R = {}"
    "set P \<subseteq> set (map fst E)" "set R \<subseteq> set (map fst E)" "distinct R" "ordered E R"
    and nV: "n \<notin> set V"
    by (auto simp: search_inv_def)
  have inv': "search_inv E (P @ [n]) (n # V, R)"
    using inv nV "2.prems"(3,5) by (auto simp: search_inv_def)
  have sub: "set ts \<subseteq> set (map fst E)"
    using "2.prems"(1) tg by (auto simp: closed_edges_def edge_def)
  have walk: "\<forall>t \<in> set ts. successively (edge E) ((P @ [n]) @ [t])"
    using "2.prems"(5) tg by (auto simp: successively_append_iff edge_def)
  have fuel: "length E \<le> length (P @ [n]) + k" using "2.prems"(6) by simp
  note IH = "2.IH" [OF ts "2.prems"(1) inv' sub walk fuel]
  show ?case
  proof (cases "DFS_forEach k E (P @ [n]) ts (n # V, R)")
    case (Inl e)
    with IH ts show ?thesis by (simp add: search_result_def)
  next
    case (Inr s1)
    obtain V1 R1 where s1: "s1 = (V1, R1)" by (cases s1)
    from IH Inr s1 have r: "search_inv E (P @ [n]) (V1, R1)" "set ts \<subseteq> set R1" "set R \<subseteq> set R1"
      by (simp_all add: search_result_def)
    from r(1) have n1: "n \<notin> set R1" by (auto simp: search_inv_def)
    have "search_inv E P (V1, R1 @ [n])"
      using r(1,2) n1 "2.prems"(3) tg
      by (auto simp: search_inv_def ordered_snoc successively_append_iff)
    with r(3) n1 Inr s1 ts show ?thesis by (auto simp: search_result_def)
  qed
next
  case (3 k E P s)
  then show ?case by (simp add: search_result_def)
next
  case (4 k E P node rest V R)
  from "4.prems"(2) have inv: "set V = set P \<union> set R" by (simp add: search_inv_def)
  from "4.prems"(3) have nk: "node \<in> set (map fst E)" and rk: "set rest \<subseteq> set (map fst E)"
    by auto
  from "4.prems"(4) have nw: "successively (edge E) (P @ [node])"
    and rw: "\<forall>t \<in> set rest. successively (edge E) (P @ [t])" by auto
  show ?case
  proof (cases "node \<in> set V")
    case False
    then have f: "node \<notin> set (fst (V, R))" by simp
    note IH1 = "4.IH"(1) [OF False "4.prems"(1,2) nk f nw "4.prems"(5)]
    show ?thesis
    proof (cases "DFS k E P node (V, R)")
      case (Inl e)
      with IH1 False show ?thesis by (simp add: search_result_def)
    next
      case (Inr s1)
      with IH1 have r1: "search_inv E P s1" "node \<in> set (snd s1)" "set R \<subseteq> set (snd s1)"
        by (simp_all add: search_result_def)
      note IH2 = "4.IH"(2) [OF False Inr "4.prems"(1) r1(1) rk rw "4.prems"(5)]
      show ?thesis
      proof (cases "DFS_forEach k E P rest s1")
        case (Inl e)
        with IH2 False Inr show ?thesis by (simp add: search_result_def)
      next
        case (Inr s2)
        with IH2 r1 False \<open>DFS k E P node (V, R) = Inr s1\<close> show ?thesis
          by (auto simp: search_result_def)
      qed
    qed
  next
    case True
    show ?thesis
    proof (cases "node \<in> set P")
      case True
      then have "P \<noteq> []" by auto
      with True nw have "cycle_path E (P @ [node])"
        by (simp add: cycle_path_def)
      with True \<open>node \<in> set V\<close> show ?thesis by (simp add: search_result_def)
    next
      case False
      with True inv have nR: "node \<in> set R" by auto
      have t: "\<not> node \<notin> set V" using True by simp
      note IH3 = "4.IH"(3) [OF t False "4.prems"(1,2) rk rw "4.prems"(5)]
      show ?thesis
      proof (cases "DFS_forEach k E P rest (V, R)")
        case (Inl e)
        with IH3 True False show ?thesis by (simp add: search_result_def)
      next
        case (Inr s2)
        with IH3 True False nR show ?thesis by (auto simp: search_result_def)
      qed
    qed
  qed
qed

lemma wf_closed_edges: "wf_graph g \<Longrightarrow> closed_edges (outgoingEdges g)"
  by (simp add: wf_graph_def closed_edges_def edge_def)

lemma graph_edges_edge: "graph_edges g = {(a, b). edge (outgoingEdges g) a b}"
  by (simp add: graph_edges_def edge_def)

lemma first_index:
  assumes "x \<in> set R"
  shows "length (takeWhile (\<lambda>y. y \<noteq> x) R) < length R"
    and "R ! length (takeWhile (\<lambda>y. y \<noteq> x) R) = x"
proof -
  let ?t = "takeWhile (\<lambda>y. y \<noteq> x) R"
  have ne: "?t \<noteq> R" using assms by auto
  have t: "?t = take (length ?t) R" by (rule takeWhile_eq_take)
  have "length ?t \<noteq> length R"
  proof
    assume "length ?t = length R"
    with t have "?t = R" by simp
    with ne show False by contradiction
  qed
  with length_takeWhile_le [of "\<lambda>y. y \<noteq> x" R]
  show l: "length ?t < length R" by simp
  from nth_length_takeWhile [OF l] show "R ! length ?t = x" by simp
qed

lemma first_index_less:
  assumes "b \<in> set (take i R)"
  shows "length (takeWhile (\<lambda>y. y \<noteq> b) R) < i"
proof (rule ccontr)
  let ?t = "takeWhile (\<lambda>y. y \<noteq> b) R"
  assume "\<not> length ?t < i"
  then have le: "i \<le> length ?t" by simp
  have "take i ?t = take i (take (length ?t) R)"
    by (rule arg_cong [OF takeWhile_eq_take])
  also have "\<dots> = take i R" using le by (simp add: min_def)
  finally have "take i ?t = take i R" .
  with assms have "b \<in> set (take i ?t)" by simp
  then have "b \<in> set ?t" by (rule in_set_takeD)
  then show False by (auto dest: set_takeWhileD)
qed

text \<open>
  An ordered result that holds every node shows that the graph has no cycle, and the
  path of a cycle error is a cycle of the graph.
\<close>

lemma ordered_acyclic:
  assumes "ordered E R" and "set (map fst E) \<subseteq> set R"
  shows "acyclic {(a, b). edge E a b}"
proof (rule acyclicI_order [where f = "\<lambda>x. length (takeWhile (\<lambda>y. y \<noteq> x) R)"])
  fix a b assume "(a, b) \<in> {(a, b). edge E a b}"
  then have e: "b \<in> set (targets E a)" by (simp add: edge_def)
  then have "a \<in> set (map fst E)" by (rule targets_in_keys)
  with assms(2) have a: "a \<in> set R" by blast
  let ?i = "length (takeWhile (\<lambda>y. y \<noteq> a) R)"
  from first_index [OF a] have i: "?i < length R" "R ! ?i = a" by blast+
  from assms(1) i have "set (targets E a) \<subseteq> set (take ?i R)"
    unfolding ordered_def by metis
  with e have "b \<in> set (take ?i R)" by blast
  then show "length (takeWhile (\<lambda>y. y \<noteq> b) R) < ?i" by (rule first_index_less)
qed

lemma walk_trancl:
  "successively (edge E) (a # xs @ [b]) \<Longrightarrow> (a, b) \<in> {(a, b). edge E a b}\<^sup>+"
proof (induction xs arbitrary: a)
  case Nil
  then show ?case by auto
next
  case (Cons x xs)
  then have "edge E a x" and "successively (edge E) (x # xs @ [b])" by auto
  with Cons.IH [of x] show ?case by (auto intro: trancl_into_trancl2)
qed

lemma cycle_path_cyclic:
  assumes "cycle_path E p"
  shows "\<not> acyclic {(a, b). edge E a b}"
proof -
  from assms have p: "p = butlast p @ [last p]" and m: "last p \<in> set (butlast p)"
    and w: "successively (edge E) p"
    by (simp_all add: cycle_path_def)
  from m obtain xs ys where s: "butlast p = xs @ last p # ys" by (auto dest: split_list)
  with p have "p = xs @ (last p # ys @ [last p])" by (metis append.assoc append_Cons)
  with w have "successively (edge E) (xs @ (last p # ys @ [last p]))" by simp
  then have "successively (edge E) (last p # ys @ [last p])"
    unfolding successively_append_iff by blast
  then have "(last p, last p) \<in> {(a, b). edge E a b}\<^sup>+" by (rule walk_trancl)
  then show ?thesis by (auto simp: acyclic_def)
qed

lemma ordered_closed:
  assumes "ordered E R" "x \<in> set R" "(x, y) \<in> {(a, b). edge E a b}\<^sup>*"
  shows "y \<in> set R"
  using assms(3,2)
proof (induction rule: rtrancl_induct)
  case base
  then show ?case .
next
  case (step y z)
  then have y: "y \<in> set R" by blast
  then obtain i where i: "i < length R" "R ! i = y" by (auto simp: in_set_conv_nth)
  with assms(1) have "set (targets E y) \<subseteq> set (take i R)" unfolding ordered_def by metis
  with step(2) have "z \<in> set (take i R)" by (auto simp: edge_def)
  then show ?case by (rule in_set_takeD)
qed

lemma ordered_precedes:
  assumes "ordered E R" "a \<in> set R" "edge E a b"
  shows "precedes b a R"
proof -
  from assms(2) obtain i where i: "i < length R" "R ! i = a" by (auto simp: in_set_conv_nth)
  with assms(1) have "set (targets E a) \<subseteq> set (take i R)" unfolding ordered_def by metis
  with assms(3) have "b \<in> set (take i R)" by (auto simp: edge_def)
  then obtain xs ys where t: "take i R = xs @ b # ys" by (auto dest: split_list)
  from i id_take_nth_drop [of i R] have "R = take i R @ a # drop (Suc i) R" by simp
  with t have "R = xs @ b # ys @ a # drop (Suc i) R" by simp
  then show ?thesis unfolding precedes_def by blast
qed

lemma walk_in_field:
  "successively R p \<Longrightarrow> 2 \<le> length p \<Longrightarrow> x \<in> set p \<Longrightarrow> (\<exists>y. R x y \<or> R y x)"
proof (induction p rule: induct_list012)
  case 1
  then show ?case by simp
next
  case (2 a)
  then show ?case by simp
next
  case (3 a b p)
  show ?case
  proof (cases "x = a \<or> x = b")
    case True
    with 3(3) show ?thesis by auto
  next
    case False
    with 3(5) have x: "x \<in> set p" by simp
    then have "2 \<le> length (b # p)" by (cases p) auto
    from 3(2) [OF _ this] 3(3) x show ?thesis by auto
  qed
qed

text \<open>
  In a graph without a cycle every node is reached from a node that nothing depends on,
  which is where the second search starts.
\<close>

lemma roots_reach:
  assumes w: "wf_graph g" and ac: "acyclic (graph_edges g)" and x: "x \<in> set (keys g)"
  shows "\<exists>r \<in> set (filter (\<lambda>node. map_of (incomingEdges g) node = Some []) (keys g)).
           (r, x) \<in> (graph_edges g)\<^sup>*"
proof -
  have fin: "finite (graph_edges g)"
  proof (rule finite_subset)
    show "graph_edges g \<subseteq> set (keys g) \<times> set (keys g)"
      using w by (auto simp: graph_edges_def wf_graph_def dest: targets_in_keys)
  qed simp
  from fin ac have "wf (graph_edges g)" by (rule finite_acyclic_wf)
  then show ?thesis using x
  proof (induction x rule: wf_induct_rule)
    case (less x)
    from w less.prems have "x \<in> set (map fst (incomingEdges g))" by (simp add: wf_graph_def)
    then obtain ss where ss: "map_of (incomingEdges g) x = Some ss"
      by (cases "map_of (incomingEdges g) x") (auto simp: map_of_eq_None_iff)
    show ?case
    proof (cases ss)
      case Nil
      with ss less.prems show ?thesis by auto
    next
      case (Cons y ys)
      with ss have "y \<in> set (targets (incomingEdges g) x)" by (simp add: targets_def)
      with w have e: "x \<in> set (targets (outgoingEdges g) y)" by (simp add: wf_graph_def)
      then have yx: "(y, x) \<in> graph_edges g" by (simp add: graph_edges_def)
      from e w have "y \<in> set (keys g)" by (auto simp: wf_graph_def dest: targets_in_keys)
      from less.IH [OF yx this] yx show ?thesis by (auto intro: rtrancl_into_rtrancl)
    qed
  qed
qed

lemma search_start:
  assumes w: "wf_graph g" and s: "set starts \<subseteq> set (keys g)"
  shows "search_result (outgoingEdges g) [] (set starts) ([], [])
           (DFS_forEach (length (keys g)) (outgoingEdges g) [] starts ([], []))"
proof -
  from w have k: "map fst (outgoingEdges g) = keys g" by (simp add: wf_graph_def)
  have l: "length (outgoingEdges g) = length (keys g)" using k by (metis length_map)
  show ?thesis
    by (rule DFS_forEach_search)
       (use w s k l in \<open>simp_all add: wf_closed_edges search_inv_def ordered_def\<close>)
qed

text \<open>
  \<open>overallOrder\<close> on a graph without a cycle returns every node once, the targets of
  a node before the node; on a graph with a cycle it raises a cycle error. It never runs
  out of fuel and never reads the edges of an unknown node.
\<close>

lemma overallOrder_acyclic:
  assumes w: "wf_graph g" and ac: "acyclic (graph_edges g)"
  shows "\<exists>order. overallOrder g = Inr order \<and> distinct order \<and> set order = set (keys g)
           \<and> ordered (outgoingEdges g) order"
proof (cases "keys g = []")
  case True
  then show ?thesis by (simp add: overallOrder_def keys_def ordered_def)
next
  case False
  let ?E = "outgoingEdges g"
  let ?roots = "filter (\<lambda>node. map_of (incomingEdges g) node = Some []) (keys g)"
  from w have k: "map fst ?E = keys g" by (simp add: wf_graph_def)
  have nocycle: "\<not> cycle_path ?E p" for p
    using cycle_path_cyclic [of ?E p] ac by (auto simp: graph_edges_edge)
  from search_start [OF w subset_refl] nocycle
  obtain s1 where p1: "DFS_forEach (length (keys g)) ?E [] (keys g) ([], []) = Inr s1"
    by (cases "DFS_forEach (length (keys g)) ?E [] (keys g) ([], [])")
       (auto simp: search_result_def)
  have "set ?roots \<subseteq> set (keys g)" by auto
  from search_start [OF w this] nocycle
  obtain V R where p2: "DFS_forEach (length (keys g)) ?E [] ?roots ([], []) = Inr (V, R)"
    and inv: "search_inv ?E [] (V, R)" and roots: "set ?roots \<subseteq> set R"
    by (cases "DFS_forEach (length (keys g)) ?E [] ?roots ([], [])")
       (auto simp: search_result_def)
  from inv have o: "ordered ?E R" and d: "distinct R" and sub: "set R \<subseteq> set (keys g)"
    by (simp_all add: search_inv_def k)
  have "set (keys g) \<subseteq> set R"
  proof
    fix x assume "x \<in> set (keys g)"
    from roots_reach [OF w ac this] obtain r where r: "r \<in> set ?roots"
      and rx: "(r, x) \<in> (graph_edges g)\<^sup>*" by blast
    from r roots have "r \<in> set R" by blast
    from ordered_closed [OF o this] rx show "x \<in> set R" by (simp add: graph_edges_edge)
  qed
  with sub have "set R = set (keys g)" by blast
  with o d p1 p2 False show ?thesis by (simp add: overallOrder_def keys_def)
qed

lemma overallOrder_cyclic:
  assumes w: "wf_graph g" and cyc: "\<not> acyclic (graph_edges g)"
  shows "\<exists>p. overallOrder g = Inl (CycleError p) \<and> cycle_path (outgoingEdges g) p"
proof -
  let ?E = "outgoingEdges g"
  from w have k: "map fst ?E = keys g" by (simp add: wf_graph_def)
  have ne: "keys g \<noteq> []"
  proof
    assume "keys g = []"
    with k have "graph_edges g = {}" by (auto simp: graph_edges_def targets_def)
    with cyc show False by (simp add: acyclic_def)
  qed
  note r = search_start [OF w subset_refl]
  show ?thesis
  proof (cases "DFS_forEach (length (keys g)) ?E [] (keys g) ([], [])")
    case (Inl e)
    with r ne show ?thesis by (auto simp: search_result_def overallOrder_def keys_def)
  next
    case (Inr s1)
    with r have "ordered ?E (snd s1)" "set (keys g) \<subseteq> set (snd s1)"
      by (simp_all add: search_result_def search_inv_def)
    with k have "acyclic {(a, b). edge ?E a b}" by (intro ordered_acyclic) simp_all
    with cyc show ?thesis by (simp add: graph_edges_edge)
  qed
qed

lemma overallOrder_result:
  assumes "wf_graph g"
  shows "(\<exists>order. overallOrder g = Inr order) \<or> (\<exists>p. overallOrder g = Inl (CycleError p))"
  using overallOrder_acyclic [OF assms] overallOrder_cyclic [OF assms] by blast

section \<open>Properties of the build\<close>

lemma reduce_schema_Suc:
  "reduce_schema env (Suc i) (Some schema) documents = extend_all env schema documents"
  by (induction documents arbitrary: i schema) (simp_all split: sum.splits prod.splits)

lemma reduce_schema_spec: "reduce_schema env 0 None documents = base_then_extend env documents"
  by (cases documents) (simp_all add: reduce_schema_Suc split: sum.splits prod.splits)

lemma reduce_schema_console:
  "list_all console_only (fst (reduce_schema env i schema documents))"
proof (induction documents arbitrary: i schema)
  case Nil
  then show ?case by simp
next
  case (Cons d ds)
  show ?case
  proof (cases "if i = 0 then buildASTSchema env d else extendSchema env schema d")
    case (Inl message)
    then show ?thesis by (simp add: Let_def)
  next
    case (Inr schema')
    obtain events r where r: "reduce_schema env (Suc i) (Some schema') ds = (events, r)"
      by (cases "reduce_schema env (Suc i) (Some schema') ds")
    with Cons.IH [of "Suc i" "Some schema'"] have "list_all console_only events" by simp
    with Inr r show ?thesis by (simp add: Let_def)
  qed
qed

lemma add_nodes_console: "list_all console_only (fst (add_nodes documents))"
proof -
  obtain ev g where a: "add_nodes documents = (ev, g)" by (cases "add_nodes documents")
  from add_nodes_props(2) [OF a] a show ?thesis by simp
qed

lemma add_dependencies_console: "list_all console_only (fst (add_dependencies pairs g))"
proof (induction pairs arbitrary: g)
  case Nil
  then show ?case by simp
next
  case (Cons p pairs)
  obtain A B where p: "p = (A, B)" by (cases p)
  show ?case
  proof (cases "addDependency g (source_name A) (source_name B)")
    case (Inl e)
    then show ?thesis by (simp add: p)
  next
    case (Inr g')
    obtain ev r where r: "add_dependencies pairs g' = (ev, r)"
      by (cases "add_dependencies pairs g'")
    with Cons.IH [of g'] have "list_all console_only ev" by simp
    with Inr r show ?thesis by (simp add: p)
  qed
qed

lemma build_graph_console: "list_all console_only (fst (build_graph documents))"
  using add_nodes_console [of documents]
    add_dependencies_console [of "dependency_pairs documents" "snd (add_nodes documents)"]
  by (simp add: build_graph_def case_prod_beta)

lemma assemble_console: "list_all console_only (fst (assemble env graph))"
  by (simp add: assemble_def reduce_schema_console split: sum.splits)

lemma assembled_console: "list_all console_only (fst (assembled env documents))"
proof (cases "build_graph documents")
  case (Pair ev r)
  with build_graph_console [of documents] have e: "list_all console_only ev" by simp
  show ?thesis
  proof (cases r)
    case (Inl err)
    with Pair e show ?thesis by (simp add: assembled_def)
  next
    case (Inr g)
    obtain ev' r' where a: "assemble env g = (ev', r')" by (cases "assemble env g")
    with assemble_console [of env g] have "list_all console_only ev'" by simp
    with Pair Inr a e show ?thesis by (simp add: assembled_def)
  qed
qed

lemma build_assembled:
  "build env output documents =
     (case assembled env documents of
        (events, Inl e) \<Rightarrow> (events, Uncaught e)
      | (events, Inr schema) \<Rightarrow>
          (case validate_and_save env output schema of
             (events', out) \<Rightarrow> (events @ events', out)))"
  by (simp add: build_def assembled_def split: prod.splits sum.splits)

text \<open>
  An exception that ends a build is the cycle error of the orderer or the error of a
  primitive: the errors of the graph for an unknown name, and the bound of the search,
  are never reached.
\<close>

lemma reduce_schema_errors:
  "snd (reduce_schema env i schema documents) = Inl e \<Longrightarrow> \<exists>message. e = Raised message"
proof (induction documents arbitrary: i schema)
  case Nil
  then show ?case by simp
next
  case (Cons d ds)
  show ?case
  proof (cases "if i = 0 then buildASTSchema env d else extendSchema env schema d")
    case (Inl message)
    with Cons.prems show ?thesis by (auto simp: Let_def)
  next
    case (Inr schema')
    with Cons.prems have "snd (reduce_schema env (Suc i) (Some schema') ds) = Inl e"
      by (simp add: Let_def case_prod_beta)
    then show ?thesis by (rule Cons.IH)
  qed
qed

lemma validate_and_save_errors:
  "snd (validate_and_save env output schema) = Uncaught e \<Longrightarrow> \<exists>message. e = Raised message"
  by (auto simp: validate_and_save_def Let_def split: sum.splits if_splits)

lemma build_errors:
  assumes "snd (build env output documents) = Uncaught e"
  shows "(\<exists>path. e = CycleError path) \<or> (\<exists>message. e = Raised message)"
proof -
  from build_graph_props [of documents] obtain ev g where
    g: "build_graph documents = (ev, Inr g)" "wf_graph g" by blast
  show ?thesis
  proof (cases "acyclic (graph_edges g)")
    case False
    from overallOrder_cyclic [OF g(2) False] obtain p where
      "overallOrder g = Inl (CycleError p)" by blast
    with g(1) assms show ?thesis by (auto simp: build_def assemble_def)
  next
    case True
    from overallOrder_acyclic [OF g(2) True] obtain order where
      o: "overallOrder g = Inr order" "set order = set (keys g)" by blast
    have "\<forall>n \<in> set order. map_of (nodes g) n \<noteq> None"
      using o(2) by (simp add: keys_def map_of_eq_None_iff)
    from getNodeDatas_found [OF this] obtain ds where
      ds: "getNodeDatas g order = Inr ds" by blast
    obtain ev' r where r: "reduce_schema env 0 None ds = (ev', r)"
      by (cases "reduce_schema env 0 None ds")
    show ?thesis
    proof (cases r)
      case (Inl err)
      with r reduce_schema_errors [of env 0 None ds err] g(1) o(1) ds assms
      show ?thesis by (auto simp: build_def assemble_def)
    next
      case (Inr schema)
      with r g(1) o(1) ds assms
      have "snd (validate_and_save env output schema) = Uncaught e"
        by (simp add: build_def assemble_def case_prod_beta)
      from validate_and_save_errors [OF this] show ?thesis by blast
    qed
  qed
qed

text \<open>
  Facts for the evaluation of the examples.
\<close>

lemmas classifier_defs = isDependentOn_def hasExtensionsFor_def hasTypesFor_def
  isTypeSystemExtensionNode_def isTypeExtensionNode_def isTypeSystemDefinitionNode_def
  isTypeDefinitionNode_def extension_matches_def exec_stem_def line_terminator_def
  typeNames_def directiveNames_def references_def collect_def collect_field_def

lemmas graph_defs = addNode_def hasNode_def new_DepGraph_def addDependency_def push_new_def
  overallOrder_def getNodeData_def

lemmas build_defs = build_def build_graph_def add_nodes_def dependency_pairs_def assemble_def
  validate_and_save_def

lemmas document_defs = base_document_def ext_document_def x_document_def y_document_def
  other_document_def ext2_document_def self_document_def type_node_def

lemma ext_base_pairs:
  "dependency_pairs [ext_document, base_document] = [(ext_document, base_document)]"
  by (simp add: dependency_pairs_def classifier_defs document_defs)

lemma x_y_pairs:
  "dependency_pairs [x_document, y_document] = [(x_document, y_document), (y_document, x_document)]"
  by (simp add: dependency_pairs_def classifier_defs document_defs)

lemma base_other_pairs:
  "dependency_pairs [base_document, other_document] = []"
  "dependency_pairs [other_document, base_document] = []"
  by (simp_all add: dependency_pairs_def classifier_defs document_defs)

lemma self_pairs: "dependency_pairs [self_document] = []"
  by (simp add: dependency_pairs_def)

subsection \<open>The classifier and the edges\<close>

text \<open>
  Claim C3. \<open>isDependentOn A B\<close> is \<open>hasExtensionsFor A B\<close> or
  \<open>hasTypesFor A B\<close>. The build accepts a pair of documents only when their names
  differ, whatever the classifier says of the pair, so the graph it builds has no edge
  from a node to itself, neither among the outgoing nor among the incoming edges.
\<close>

theorem no_self_dependency:
  "(isDependentOn A B \<longleftrightarrow> hasExtensionsFor A B \<or> hasTypesFor A B)
   \<and> (\<forall>(documentA, documentB) \<in> set (dependency_pairs documents).
         source_name documentA \<noteq> source_name documentB)
   \<and> (\<exists>events graph. build_graph documents = (events, Inr graph)
        \<and> (\<forall>(node, targets) \<in> set (outgoingEdges graph). node \<notin> set targets)
        \<and> (\<forall>(node, sources) \<in> set (incomingEdges graph). node \<notin> set sources))"
proof (intro conjI)
  show "isDependentOn A B \<longleftrightarrow> hasExtensionsFor A B \<or> hasTypesFor A B"
    by (simp add: isDependentOn_def)
  show "\<forall>(documentA, documentB) \<in> set (dependency_pairs documents).
         source_name documentA \<noteq> source_name documentB"
    by (auto simp: dependency_pairs_members)
  from build_graph_props [of documents] obtain ev g where
    g: "build_graph documents = (ev, Inr g)" "wf_graph g"
       "graph_edges g = dependency_relation documents" by blast
  have irr: "(a, a) \<notin> graph_edges g" for a
    unfolding g(3) by (auto simp: dependency_relation_def dependency_pairs_members)
  from g(2) have d: "distinct (map fst (outgoingEdges g))" "distinct (map fst (incomingEdges g))"
    by (simp_all add: wf_graph_def)
  have o: "\<forall>(node, ts) \<in> set (outgoingEdges g). node \<notin> set ts"
  proof (clarify)
    fix node ts assume "(node, ts) \<in> set (outgoingEdges g)" "node \<in> set ts"
    with d(1) have "node \<in> set (targets (outgoingEdges g) node)" by (simp add: targets_def)
    with irr show False by (simp add: graph_edges_def)
  qed
  have i: "\<forall>(node, ss) \<in> set (incomingEdges g). node \<notin> set ss"
  proof (clarify)
    fix node ss assume "(node, ss) \<in> set (incomingEdges g)" "node \<in> set ss"
    with d(2) have "node \<in> set (targets (incomingEdges g) node)" by (simp add: targets_def)
    with g(2) have "node \<in> set (targets (outgoingEdges g) node)" by (simp add: wf_graph_def)
    with irr show False by (simp add: graph_edges_def)
  qed
  from g(1) o i show "\<exists>events graph. build_graph documents = (events, Inr graph)
        \<and> (\<forall>(node, targets) \<in> set (outgoingEdges graph). node \<notin> set targets)
        \<and> (\<forall>(node, sources) \<in> set (incomingEdges graph). node \<notin> set sources)"
    by blast
qed

theorem no_self_dependency_witness:
  "hasTypesFor self_document self_document \<and> isDependentOn self_document self_document
   \<and> dependency_pairs [self_document] = []
   \<and> (ext_document, base_document) \<in> set (dependency_pairs [ext_document, base_document])
   \<and> source_name ext_document \<noteq> source_name base_document
   \<and> (\<exists>events graph. build_graph [ext_document, base_document] = (events, Inr graph)
        \<and> (\<forall>(node, targets) \<in> set (outgoingEdges graph). node \<notin> set targets)
        \<and> (\<forall>(node, sources) \<in> set (incomingEdges graph). node \<notin> set sources))"
proof -
  have t: "hasTypesFor self_document self_document"
    by (simp add: classifier_defs document_defs)
  have m: "(ext_document, base_document) \<in> set (dependency_pairs [ext_document, base_document])"
    by (simp add: ext_base_pairs)
  note c = no_self_dependency [of self_document self_document "[ext_document, base_document]"]
  from c t have d: "isDependentOn self_document self_document" by blast
  from c m have n: "source_name ext_document \<noteq> source_name base_document" by blast
  from c t d m n self_pairs show ?thesis by blast
qed

subsection \<open>Cycles\<close>

text \<open>
  Claim C1. When the dependency edges of the documents contain a cycle, the graph holds
  every one of these edges, and the build ends with a cycle error that nothing catches,
  after the lines of the graph construction and before any schema is built or any file
  written. The path of the error is a walk along dependency edges, over names of the
  documents, that ends in a name it has passed before.
\<close>

theorem cycle_fails:
  assumes "\<not> acyclic (dependency_relation documents)"
  shows "\<exists>graph path.
      snd (build_graph documents) = Inr graph
    \<and> graph_edges graph = dependency_relation documents
    \<and> build env output documents = (fst (build_graph documents), Uncaught (CycleError path))
    \<and> list_all console_only (fst (build_graph documents))
    \<and> path \<noteq> [] \<and> last path \<in> set (butlast path)
    \<and> successively (\<lambda>a b. (a, b) \<in> dependency_relation documents) path
    \<and> set path \<subseteq> source_name ` set documents"
proof -
  from build_graph_props [of documents] obtain ev g where
    g: "build_graph documents = (ev, Inr g)" "list_all console_only ev" "wf_graph g"
       "set (keys g) = source_name ` set documents"
       "graph_edges g = dependency_relation documents" by blast
  from overallOrder_cyclic [OF g(3)] assms g(5) obtain p where
    p: "overallOrder g = Inl (CycleError p)" "cycle_path (outgoingEdges g) p" by auto
  have e: "edge (outgoingEdges g) = (\<lambda>a b. (a, b) \<in> dependency_relation documents)"
    using g(5) by (auto simp: graph_edges_edge fun_eq_iff)
  from p(2) have c: "p \<noteq> []" "last p \<in> set (butlast p)"
    "successively (\<lambda>a b. (a, b) \<in> dependency_relation documents) p"
    by (simp_all add: cycle_path_def e)
  from c(1,2) have l: "2 \<le> length p" by (cases p rule: rev_cases) (auto simp: Suc_le_eq)
  have "set p \<subseteq> source_name ` set documents"
  proof
    fix x assume "x \<in> set p"
    from walk_in_field [OF c(3) l this] obtain y where
      "(x, y) \<in> dependency_relation documents \<or> (y, x) \<in> dependency_relation documents" by blast
    then show "x \<in> source_name ` set documents"
      by (auto simp: dependency_relation_def dependency_pairs_members)
  qed
  moreover have "build env output documents = (ev, Uncaught (CycleError p))"
    by (simp add: build_def g(1) assemble_def p(1))
  ultimately show ?thesis using g(1,2,5) c by auto
qed

theorem cycle_fails_witness:
  "\<not> acyclic (dependency_relation [x_document, y_document])
   \<and> (\<exists>graph path.
          snd (build_graph [x_document, y_document]) = Inr graph
        \<and> graph_edges graph = dependency_relation [x_document, y_document]
        \<and> build example_env ''out/schema.graphql'' [x_document, y_document]
          = (fst (build_graph [x_document, y_document]), Uncaught (CycleError path))
        \<and> list_all console_only (fst (build_graph [x_document, y_document]))
        \<and> path \<noteq> [] \<and> last path \<in> set (butlast path)
        \<and> successively (\<lambda>a b. (a, b) \<in> dependency_relation [x_document, y_document]) path
        \<and> set path \<subseteq> source_name ` set [x_document, y_document])
   \<and> snd (build example_env ''out/schema.graphql'' [x_document, y_document])
        = Uncaught (CycleError [''x.graphql'', ''y.graphql'', ''x.graphql''])"
proof -
  have r: "dependency_relation [x_document, y_document]
      = {(''x.graphql'', ''y.graphql''), (''y.graphql'', ''x.graphql'')}"
    by (simp add: dependency_relation_def x_y_pairs) (simp add: document_defs)
  have "(''x.graphql'', ''x.graphql'') \<in> (dependency_relation [x_document, y_document])\<^sup>+"
    unfolding r by (rule trancl_trans [OF r_into_trancl r_into_trancl]) simp_all
  then have c: "\<not> acyclic (dependency_relation [x_document, y_document])"
    by (auto simp: acyclic_def)
  have e: "snd (build example_env ''out/schema.graphql'' [x_document, y_document])
        = Uncaught (CycleError [''x.graphql'', ''y.graphql'', ''x.graphql''])"
    by (simp add: build_def build_graph_def add_nodes_def x_y_pairs assemble_def graph_defs)
       (simp add: document_defs)
  from cycle_fails [OF c, of example_env "''out/schema.graphql''"] c e show ?thesis by blast
qed

subsection \<open>The merge order and the fold\<close>

lemma find_distinct:
  "distinct (map f xs) \<Longrightarrow> x \<in> set xs \<Longrightarrow> find (\<lambda>y. f y = f x) xs = Some x"
  by (induction xs) (auto simp: image_iff)

lemma fetched_documents:
  "list_all2 (\<lambda>n d. find (\<lambda>d'. source_name d' = n) documents = Some d) order ds
   \<Longrightarrow> ds = map (\<lambda>n. the (find (\<lambda>d'. source_name d' = n) documents)) order"
  by (induction rule: list_all2_induct) simp_all

lemma permutation_of_documents:
  assumes "distinct (map source_name documents)" "distinct order"
    and "set order = source_name ` set documents"
    and "list_all2 (\<lambda>n d. find (\<lambda>d'. source_name d' = n) documents = Some d) order ds"
  shows "mset order = mset (map source_name documents) \<and> mset ds = mset documents"
proof -
  let ?g = "\<lambda>n. the (find (\<lambda>d'. source_name d' = n) documents)"
  from assms(3) have "set order = set (map source_name documents)" by simp
  with assms(1,2) have o: "mset order = mset (map source_name documents)"
    using set_eq_iff_mset_eq_distinct [of order "map source_name documents"] by blast
  have "mset ds = image_mset ?g (mset order)"
    using fetched_documents [OF assms(4)] by simp
  also have "\<dots> = mset (map (\<lambda>d. ?g (source_name d)) documents)"
    unfolding o by (simp add: multiset.map_comp comp_def)
  also have "map (\<lambda>d. ?g (source_name d)) documents = documents"
    by (rule map_idI) (simp add: find_distinct [OF assms(1)])
  finally show ?thesis using o by simp
qed

text \<open>
  Claim C2. When the dependency edges contain no cycle, \<open>overallOrder\<close> returns an
  order that holds every document name once and in which, for every dependency edge
  (a, b), b stands before a. The documents are fetched in this order, each name giving
  the first document of that name, so that with names that are all different the order
  is a permutation of the names and the fetched documents are a permutation of the
  documents. They are folded from left to right: the first by \<open>buildASTSchema\<close>,
  every later one by \<open>extendSchema\<close> on the accumulated schema.
\<close>

theorem merge_order_fold:
  assumes "acyclic (dependency_relation documents)"
  shows "\<exists>events graph order ordered_documents.
      build_graph documents = (events, Inr graph)
    \<and> overallOrder graph = Inr order
    \<and> distinct order \<and> set order = source_name ` set documents
    \<and> (\<forall>(a, b) \<in> dependency_relation documents. precedes b a order)
    \<and> getNodeDatas graph order = Inr ordered_documents
    \<and> list_all2 (\<lambda>n d. find (\<lambda>d'. source_name d' = n) documents = Some d)
         order ordered_documents
    \<and> (distinct (map source_name documents) \<longrightarrow>
          mset order = mset (map source_name documents)
        \<and> mset ordered_documents = mset documents)
    \<and> assemble env graph = base_then_extend env ordered_documents"
proof -
  from build_graph_props [of documents] obtain ev g where
    g: "build_graph documents = (ev, Inr g)" "wf_graph g"
       "set (keys g) = source_name ` set documents"
       "graph_edges g = dependency_relation documents" by blast
  from overallOrder_acyclic [OF g(2)] assms g(4) obtain order where
    o: "overallOrder g = Inr order" "distinct order" "set order = set (keys g)"
       "ordered (outgoingEdges g) order" by auto
  have p: "\<forall>(a, b) \<in> dependency_relation documents. precedes b a order"
  proof (clarify)
    fix a b assume "(a, b) \<in> dependency_relation documents"
    with g(4) have "(a, b) \<in> graph_edges g" by simp
    then have e: "edge (outgoingEdges g) a b" by (simp add: graph_edges_def edge_def)
    then have "a \<in> set (map fst (outgoingEdges g))" unfolding edge_def by (rule targets_in_keys)
    with g(2) o(3) have "a \<in> set order" by (simp add: wf_graph_def)
    from ordered_precedes [OF o(4) this e] show "precedes b a order" .
  qed
  have "\<forall>n \<in> set order. map_of (nodes g) n \<noteq> None"
    using o(3) by (simp add: keys_def map_of_eq_None_iff)
  from getNodeDatas_found [OF this] obtain ds where
    ds: "getNodeDatas g order = Inr ds"
        "list_all2 (\<lambda>n d. map_of (nodes g) n = Some d) order ds" by blast
  from ds(2) have f: "list_all2 (\<lambda>n d. find (\<lambda>d'. source_name d' = n) documents = Some d) order ds"
    by (simp add: build_graph_payload [OF g(1)])
  have m: "distinct (map source_name documents) \<longrightarrow>
          mset order = mset (map source_name documents) \<and> mset ds = mset documents"
    using permutation_of_documents [of documents order ds] o(2,3) g(3) f by simp
  have "assemble env g = base_then_extend env ds"
    by (simp add: assemble_def o(1) ds(1) reduce_schema_spec)
  with g o p ds f m show ?thesis by blast
qed

theorem merge_order_fold_witness:
  "acyclic (dependency_relation [ext_document, base_document])
   \<and> (\<exists>events graph order ordered_documents.
      build_graph [ext_document, base_document] = (events, Inr graph)
    \<and> overallOrder graph = Inr order
    \<and> distinct order \<and> set order = source_name ` set [ext_document, base_document]
    \<and> (\<forall>(a, b) \<in> dependency_relation [ext_document, base_document]. precedes b a order)
    \<and> getNodeDatas graph order = Inr ordered_documents
    \<and> list_all2 (\<lambda>n d. find (\<lambda>d'. source_name d' = n) [ext_document, base_document] = Some d)
         order ordered_documents
    \<and> mset order = mset (map source_name [ext_document, base_document])
    \<and> mset ordered_documents = mset [ext_document, base_document]
    \<and> assemble example_env graph = base_then_extend example_env ordered_documents)
   \<and> merge_order [ext_document, base_document] = Inr [''base.graphql'', ''ext.graphql'']"
proof -
  have r: "dependency_relation [ext_document, base_document] = {(''ext.graphql'', ''base.graphql'')}"
    by (simp add: dependency_relation_def ext_base_pairs) (simp add: document_defs)
  have "acyclic ({} :: (string \<times> string) set)" by (simp add: acyclic_def)
  then have a: "acyclic (dependency_relation [ext_document, base_document])"
    unfolding r by simp
  have m: "merge_order [ext_document, base_document] = Inr [''base.graphql'', ''ext.graphql'']"
    by (simp add: merge_order_def build_graph_def add_nodes_def ext_base_pairs graph_defs)
       (simp add: document_defs)
  have d: "distinct (map source_name [ext_document, base_document])"
    by (simp add: document_defs)
  from merge_order_fold [OF a, of example_env] d a m show ?thesis by blast
qed

subsection \<open>Determinism\<close>

text \<open>
  A build is the construction of the graph, which writes to the console only, followed
  by the fold, the validation and the saving of the documents in merge order.
\<close>

lemma written_append: "written (xs @ ys) = written xs @ written ys"
  by (induction xs rule: written.induct) simp_all

lemma written_console: "list_all console_only events \<Longrightarrow> written events = []"
  by (induction events rule: written.induct) simp_all

lemma build_factors:
  "build env output documents =
     (case ordered_documents documents of
        Inl e \<Rightarrow> (fst (build_graph documents), Uncaught e)
      | Inr ds \<Rightarrow>
          (fst (build_graph documents) @ fst (fold_and_save env output ds),
           snd (fold_and_save env output ds)))"
proof -
  from build_graph_props [of documents] obtain ev g where
    g: "build_graph documents = (ev, Inr g)" by blast
  show ?thesis
    by (simp add: build_def g ordered_documents_def assemble_def fold_and_save_def
          split: sum.splits prod.splits)
qed

text \<open>
  Claim C9, as amended. The merge order is a function of the graph as it is built: two
  lists of documents with the same names in the same order, and the same accepted pairs
  of names in the same order, have the same merge order, whatever else the documents
  hold. The files that a build writes, and the way it ends, are a function of the
  documents in merge order: two lists of documents that give the same documents in
  merge order write the same output and end in the same way, also when they were
  discovered in different orders.
\<close>

theorem merge_order_of_graph:
  "(map source_name documents = map source_name documents'
      \<and> map pair_names (dependency_pairs documents) = map pair_names (dependency_pairs documents')
      \<longrightarrow> merge_order documents = merge_order documents')
   \<and> (ordered_documents documents = ordered_documents documents'
      \<longrightarrow> written (fst (build env output documents)) = written (fst (build env output documents'))
        \<and> snd (build env output documents) = snd (build env output documents'))"
proof (intro conjI impI)
  assume a: "map source_name documents = map source_name documents'
      \<and> map pair_names (dependency_pairs documents) = map pair_names (dependency_pairs documents')"
  have n: "shape (snd (add_nodes documents)) = shape (snd (add_nodes documents'))"
    unfolding add_nodes_def by (rule shape_fold_add_nodes) (use a in simp_all)
  have "map_sum id shape (snd (build_graph documents)) = map_sum id shape (snd (build_graph documents'))"
    using shape_add_dependencies [OF _ n] a
    by (simp add: build_graph_def case_prod_beta)
  then show "merge_order documents = merge_order documents'"
    unfolding merge_order_def
    by (cases "snd (build_graph documents)"; cases "snd (build_graph documents')")
       (auto dest: shape_overallOrder)
next
  assume o: "ordered_documents documents = ordered_documents documents'"
  have w: "written (fst (build_graph ds)) = []" for ds
    using build_graph_console [of ds] by (rule written_console)
  show "written (fst (build env output documents)) = written (fst (build env output documents'))"
    unfolding build_factors [where documents = documents] build_factors [where documents = documents'] o
    by (simp add: written_append w split: sum.splits)
  show "snd (build env output documents) = snd (build env output documents')"
    unfolding build_factors [where documents = documents] build_factors [where documents = documents'] o
    by (simp split: sum.splits)
qed

theorem merge_order_of_graph_witness:
  "[ext_document, base_document] \<noteq> [ext2_document, base_document]
   \<and> map source_name [ext_document, base_document] = map source_name [ext2_document, base_document]
   \<and> map pair_names (dependency_pairs [ext_document, base_document])
       = [(''ext.graphql'', ''base.graphql'')]
   \<and> map pair_names (dependency_pairs [ext2_document, base_document])
       = [(''ext.graphql'', ''base.graphql'')]
   \<and> merge_order [ext_document, base_document] = merge_order [ext2_document, base_document]
   \<and> [ext_document, base_document] \<noteq> [base_document, ext_document]
   \<and> ordered_documents [ext_document, base_document] = Inr [base_document, ext_document]
   \<and> ordered_documents [base_document, ext_document] = Inr [base_document, ext_document]
   \<and> written (fst (build example_env ''out/schema.graphql'' [ext_document, base_document]))
       = written (fst (build example_env ''out/schema.graphql'' [base_document, ext_document]))
   \<and> snd (build example_env ''out/schema.graphql'' [ext_document, base_document])
       = snd (build example_env ''out/schema.graphql'' [base_document, ext_document])
   \<and> written (fst (build example_env ''out/schema.graphql'' [base_document, ext_document]))
       = [(''out/schema.graphql'', ''Query;Query;'')]"
proof -
  have 1: "[ext_document, base_document] \<noteq> [ext2_document, base_document]"
    by (simp add: document_defs ext2_document_def)
  have 2: "map source_name [ext_document, base_document] = map source_name [ext2_document, base_document]"
    by (simp add: document_defs ext2_document_def)
  have 3: "map pair_names (dependency_pairs [ext_document, base_document])
       = [(''ext.graphql'', ''base.graphql'')]"
    by (simp add: ext_base_pairs pair_names_def) (simp add: document_defs)
  have 4: "map pair_names (dependency_pairs [ext2_document, base_document])
       = [(''ext.graphql'', ''base.graphql'')]"
    by (simp add: dependency_pairs_def classifier_defs pair_names_def document_defs ext2_document_def)
  have 5: "[ext_document, base_document] \<noteq> [base_document, ext_document]"
    by (simp add: document_defs)
  have 6: "ordered_documents [ext_document, base_document] = Inr [base_document, ext_document]"
    by (simp add: ordered_documents_def build_graph_def add_nodes_def ext_base_pairs graph_defs)
       (simp add: document_defs)
  have p: "dependency_pairs [base_document, ext_document] = [(ext_document, base_document)]"
    by (simp add: dependency_pairs_def classifier_defs document_defs)
  have 7: "ordered_documents [base_document, ext_document] = Inr [base_document, ext_document]"
    by (simp add: ordered_documents_def build_graph_def add_nodes_def p graph_defs)
       (simp add: document_defs)
  have 8: "written (fst (build example_env ''out/schema.graphql'' [base_document, ext_document]))
       = [(''out/schema.graphql'', ''Query;Query;'')]"
    by (simp add: build_defs classifier_defs graph_defs example_env_def document_defs)
  note a = merge_order_of_graph [of "[ext_document, base_document]"
      "[ext2_document, base_document]" example_env "''out/schema.graphql''"]
  note b = merge_order_of_graph [of "[ext_document, base_document]"
      "[base_document, ext_document]" example_env "''out/schema.graphql''"]
  from a 2 3 4 have 9: "merge_order [ext_document, base_document] = merge_order [ext2_document, base_document]"
    by simp
  from b 6 7 have 10: "written (fst (build example_env ''out/schema.graphql'' [ext_document, base_document]))
       = written (fst (build example_env ''out/schema.graphql'' [base_document, ext_document]))
     \<and> snd (build example_env ''out/schema.graphql'' [ext_document, base_document])
       = snd (build example_env ''out/schema.graphql'' [base_document, ext_document])"
    by simp
  from 1 2 3 4 5 6 7 8 9 10 show ?thesis by simp
qed

text \<open>
  The claim as stated fails: the merge order is not a function of the nodes and edges
  alone. These two documents have no edge between them, and the two orders of discovery
  give two merge orders.
\<close>

theorem merge_order_depends_on_discovery:
  "set [base_document, other_document] = set [other_document, base_document]
   \<and> dependency_relation [base_document, other_document] = {}
   \<and> dependency_relation [other_document, base_document] = {}
   \<and> merge_order [base_document, other_document] = Inr [''base.graphql'', ''other.graphql'']
   \<and> merge_order [other_document, base_document] = Inr [''other.graphql'', ''base.graphql'']"
proof -
  have 1: "merge_order [base_document, other_document] = Inr [''base.graphql'', ''other.graphql'']"
    by (simp add: merge_order_def build_graph_def add_nodes_def base_other_pairs graph_defs)
       (simp add: document_defs)
  have 2: "merge_order [other_document, base_document] = Inr [''other.graphql'', ''base.graphql'']"
    by (simp add: merge_order_def build_graph_def add_nodes_def base_other_pairs graph_defs)
       (simp add: document_defs)
  from 1 2 show ?thesis
    by (auto simp: dependency_relation_def base_other_pairs)
qed

subsection \<open>Validation\<close>

text \<open>
  Claim C6. When the schema is assembled and \<open>validateSchema\<close> returns violations,
  the build prints every message on the error console, in order, then
  \<open>Validation Failed!\<close>, leaves with exit code 1, and none of its events touches the
  file system. An event of a build that touches the file system comes from a build whose
  schema was assembled and validated with no violation.
\<close>

theorem validation_failure_writes_nothing:
  "(assembled env documents = (events, Inr schema) \<and> validateSchema env schema = Inr violations
      \<and> violations \<noteq> [] \<longrightarrow>
        build env output documents
          = (events @ [ConsoleLog [], ConsoleLog ''Validating...'', ConsoleLog []]
               @ map ConsoleError violations @ [ConsoleError ''Validation Failed!''], Exit 1)
      \<and> list_all console_only (fst (build env output documents)))
   \<and> (e \<in> set (fst (build env output documents)) \<and> \<not> console_only e \<longrightarrow>
        (\<exists>events schema. assembled env documents = (events, Inr schema)
           \<and> validateSchema env schema = Inr []))"
proof (intro conjI impI)
  assume h: "assembled env documents = (events, Inr schema) \<and> validateSchema env schema = Inr violations
      \<and> violations \<noteq> []"
  then show b: "build env output documents
          = (events @ [ConsoleLog [], ConsoleLog ''Validating...'', ConsoleLog []]
               @ map ConsoleError violations @ [ConsoleError ''Validation Failed!''], Exit 1)"
    by (simp add: build_assembled validate_and_save_def)
  from assembled_console [of env documents] h have "list_all console_only events" by simp
  then show "list_all console_only (fst (build env output documents))"
    unfolding b by (simp add: list_all_iff image_iff) auto
next
  assume h: "e \<in> set (fst (build env output documents)) \<and> \<not> console_only e"
  obtain events r where a: "assembled env documents = (events, r)"
    by (cases "assembled env documents")
  with assembled_console [of env documents] have c: "list_all console_only events" by simp
  show "\<exists>events schema. assembled env documents = (events, Inr schema)
           \<and> validateSchema env schema = Inr []"
  proof (cases r)
    case (Inl err)
    with a h c show ?thesis by (auto simp: build_assembled list_all_iff)
  next
    case (Inr schema)
    show ?thesis
    proof (cases "validateSchema env schema")
      case (Inl message)
      with a Inr h c show ?thesis
        by (auto simp: build_assembled validate_and_save_def list_all_iff)
    next
      case v: (Inr violations)
      show ?thesis
      proof (cases "violations = []")
        case True
        with a Inr v show ?thesis by simp
      next
        case False
        with a Inr v h c show ?thesis
          by (auto simp: build_assembled validate_and_save_def list_all_iff)
      qed
    qed
  qed
qed

theorem validation_failure_writes_nothing_witness:
  "build rejecting_env ''out/schema.graphql'' [ext_document, base_document]
     = ([ConsoleLog ''Adding ext.graphql'', ConsoleLog ''Adding base.graphql'',
         ConsoleLog ([CHR 0x22] @ ''ext.graphql'' @ [CHR 0x22] @ '' has a dependency on ''
            @ [CHR 0x22] @ ''base.graphql'' @ [CHR 0x22] @ ''.''),
         ConsoleLog ''Building schema with base.graphql.'',
         ConsoleLog ''Extending with ext.graphql.'',
         ConsoleLog [], ConsoleLog ''Validating...'', ConsoleLog [],
         ConsoleError ''Query root type must be provided.'',
         ConsoleError ''Type Shadow must define one or more fields.'',
         ConsoleError ''Validation Failed!''], Exit 1)
   \<and> list_all console_only (fst (build rejecting_env ''out/schema.graphql'' [ext_document, base_document]))
   \<and> WriteFileSync ''out/schema.graphql'' ''Query;Query;''
        \<in> set (fst (build example_env ''out/schema.graphql'' [ext_document, base_document]))
   \<and> (\<exists>events schema. assembled example_env [ext_document, base_document] = (events, Inr schema)
         \<and> validateSchema example_env schema = Inr [])"
proof -
  let ?events = "[ConsoleLog ''Adding ext.graphql'', ConsoleLog ''Adding base.graphql'',
         ConsoleLog ([CHR 0x22] @ ''ext.graphql'' @ [CHR 0x22] @ '' has a dependency on ''
            @ [CHR 0x22] @ ''base.graphql'' @ [CHR 0x22] @ ''.''),
         ConsoleLog ''Building schema with base.graphql.'',
         ConsoleLog ''Extending with ext.graphql.'']"
  have a: "assembled rejecting_env [ext_document, base_document]
      = (?events, Inr (Some [''Query'', ''Query'']))"
    by (simp add: assembled_def build_graph_def add_nodes_def dependency_pairs_def assemble_def
          classifier_defs graph_defs rejecting_env_def example_env_def document_defs)
  have v: "validateSchema rejecting_env (Some [''Query'', ''Query''])
      = Inr [''Query root type must be provided.'', ''Type Shadow must define one or more fields.'']"
    by (simp add: rejecting_env_def)
  have w: "WriteFileSync ''out/schema.graphql'' ''Query;Query;''
        \<in> set (fst (build example_env ''out/schema.graphql'' [ext_document, base_document]))"
    by (simp add: build_defs classifier_defs graph_defs example_env_def document_defs)
  note f = validation_failure_writes_nothing
    [of rejecting_env "[ext_document, base_document]" ?events "Some [''Query'', ''Query'']"
        "[''Query root type must be provided.'', ''Type Shadow must define one or more fields.'']"
        "''out/schema.graphql''"]
  note s = validation_failure_writes_nothing
    [of example_env "[ext_document, base_document]" _ _ _ "''out/schema.graphql''"
        "WriteFileSync ''out/schema.graphql'' ''Query;Query;''"]
  from f a v have 1: "build rejecting_env ''out/schema.graphql'' [ext_document, base_document]
     = (?events @ [ConsoleLog [], ConsoleLog ''Validating...'', ConsoleLog []]
          @ map ConsoleError [''Query root type must be provided.'',
               ''Type Shadow must define one or more fields.'']
          @ [ConsoleError ''Validation Failed!''], Exit 1)
    \<and> list_all console_only (fst (build rejecting_env ''out/schema.graphql'' [ext_document, base_document]))"
    by blast
  from s w have 2: "\<exists>events schema. assembled example_env [ext_document, base_document] = (events, Inr schema)
         \<and> validateSchema example_env schema = Inr []"
    by simp
  from 1 2 w show ?thesis by simp
qed

subsection \<open>No documents\<close>

lemma build_empty: "build env output [] = validate_and_save env output None"
  by (simp add: build_assembled assembled_def build_graph_def add_nodes_def dependency_pairs_def
        assemble_def overallOrder_def new_DepGraph_def)

text \<open>
  Claim C10, as amended. With no documents the graph is empty, \<open>overallOrder\<close>
  returns the empty order, the fold returns its initial accumulator null, and the build
  has no check of its own for an empty input: it hands null to \<open>validateSchema\<close>.
  When \<open>validateSchema\<close> throws for null, the build ends with that exception and
  writes nothing; when it reports violations, the build prints them and leaves with
  exit code 1; only when it reports none does the build hand null to
  \<open>printSchema\<close>, and it writes the output only when \<open>printSchema\<close> returns a
  text for null.
\<close>

theorem empty_input:
  "build_graph [] = ([], Inr new_DepGraph) \<and> overallOrder new_DepGraph = Inr []
   \<and> assembled env [] = ([], Inr None)
   \<and> (validateSchema env None = Inl message \<longrightarrow>
        build env output []
          = ([ConsoleLog [], ConsoleLog ''Validating...''], Uncaught (Raised message)))
   \<and> (validateSchema env None = Inr violations \<and> violations \<noteq> [] \<longrightarrow>
        build env output []
          = ([ConsoleLog [], ConsoleLog ''Validating...'', ConsoleLog []]
               @ map ConsoleError violations @ [ConsoleError ''Validation Failed!''], Exit 1))
   \<and> (validateSchema env None = Inr [] \<and> printSchema env None = Inr text \<longrightarrow>
        build env output []
          = ([ConsoleLog [], ConsoleLog ''Validating...'',
              ConsoleLog (''Saving '' @ relative env ''.'' output)]
               @ (if \<not> existsSync env output then [MkdirSync (dirname env output)] else [])
               @ [WriteFileSync output text], Returned))
   \<and> (validateSchema env None = Inr [] \<and> printSchema env None = Inl message \<longrightarrow>
        build env output []
          = ([ConsoleLog [], ConsoleLog ''Validating...'',
              ConsoleLog (''Saving '' @ relative env ''.'' output)]
               @ (if \<not> existsSync env output then [MkdirSync (dirname env output)] else []),
             Uncaught (Raised message)))
   \<and> (WriteFileSync path written_text \<in> set (fst (build env output [])) \<longrightarrow>
        validateSchema env None = Inr [] \<and> printSchema env None = Inr written_text
        \<and> path = output)"
proof (intro conjI impI)
  show "build_graph [] = ([], Inr new_DepGraph)"
    by (simp add: build_graph_def add_nodes_def dependency_pairs_def)
  show "overallOrder new_DepGraph = Inr []"
    by (simp add: overallOrder_def new_DepGraph_def)
  show "assembled env [] = ([], Inr None)"
    by (simp add: assembled_def build_graph_def add_nodes_def dependency_pairs_def
          assemble_def overallOrder_def new_DepGraph_def)
next
  assume "validateSchema env None = Inl message"
  then show "build env output []
          = ([ConsoleLog [], ConsoleLog ''Validating...''], Uncaught (Raised message))"
    by (simp add: build_empty validate_and_save_def)
next
  assume "validateSchema env None = Inr violations \<and> violations \<noteq> []"
  then show "build env output []
          = ([ConsoleLog [], ConsoleLog ''Validating...'', ConsoleLog []]
               @ map ConsoleError violations @ [ConsoleError ''Validation Failed!''], Exit 1)"
    by (simp add: build_empty validate_and_save_def)
next
  assume "validateSchema env None = Inr [] \<and> printSchema env None = Inr text"
  then show "build env output []
          = ([ConsoleLog [], ConsoleLog ''Validating...'',
              ConsoleLog (''Saving '' @ relative env ''.'' output)]
               @ (if \<not> existsSync env output then [MkdirSync (dirname env output)] else [])
               @ [WriteFileSync output text], Returned)"
    by (simp add: build_empty validate_and_save_def)
next
  assume "validateSchema env None = Inr [] \<and> printSchema env None = Inl message"
  then show "build env output []
          = ([ConsoleLog [], ConsoleLog ''Validating...'',
              ConsoleLog (''Saving '' @ relative env ''.'' output)]
               @ (if \<not> existsSync env output then [MkdirSync (dirname env output)] else []),
             Uncaught (Raised message))"
    by (simp add: build_empty validate_and_save_def)
next
  assume w: "WriteFileSync path written_text \<in> set (fst (build env output []))"
  then have "validateSchema env None = Inr [] \<and> printSchema env None = Inr written_text
        \<and> path = output"
    by (auto simp: build_empty validate_and_save_def Let_def split: sum.splits if_splits)
  then show "validateSchema env None = Inr []" "printSchema env None = Inr written_text"
    "path = output" by simp_all
qed

theorem empty_input_witness:
  "validateSchema lenient_env None = Inr [] \<and> printSchema lenient_env None = Inr ''null''
   \<and> build lenient_env ''out/schema.graphql'' []
       = ([ConsoleLog [], ConsoleLog ''Validating...'', ConsoleLog ''Saving out/schema.graphql'',
           MkdirSync ''out'', WriteFileSync ''out/schema.graphql'' ''null''], Returned)
   \<and> validateSchema strict_env None = Inl ''Expected null to be a GraphQL schema.''
   \<and> build strict_env ''out/schema.graphql'' []
       = ([ConsoleLog [], ConsoleLog ''Validating...''],
          Uncaught (Raised ''Expected null to be a GraphQL schema.''))
   \<and> validateSchema rejecting_env None
       = Inr [''Query root type must be provided.'', ''Type Shadow must define one or more fields.'']
   \<and> snd (build rejecting_env ''out/schema.graphql'' []) = Exit 1
   \<and> build (lenient_env\<lparr>printSchema := (\<lambda>schema. Inl ''Cannot print null.'')\<rparr>)
         ''out/schema.graphql'' []
       = ([ConsoleLog [], ConsoleLog ''Validating...'', ConsoleLog ''Saving out/schema.graphql'',
           MkdirSync ''out''], Uncaught (Raised ''Cannot print null.''))
   \<and> WriteFileSync ''out/schema.graphql'' ''null''
         \<in> set (fst (build lenient_env ''out/schema.graphql'' []))
   \<and> (\<forall>path written_text.
         WriteFileSync path written_text \<notin> set (fst (build strict_env ''out/schema.graphql'' [])))"
proof -
  have 1: "validateSchema lenient_env None = Inr [] \<and> printSchema lenient_env None = Inr ''null''"
    by (simp add: lenient_env_def example_env_def)
  have 2: "validateSchema strict_env None = Inl ''Expected null to be a GraphQL schema.''"
    by (simp add: strict_env_def example_env_def)
  have 3: "validateSchema rejecting_env None
       = Inr [''Query root type must be provided.'', ''Type Shadow must define one or more fields.'']"
    by (simp add: rejecting_env_def example_env_def)
  from empty_input [of lenient_env _ "''out/schema.graphql''" _ "''null''"] 1
  have a: "build lenient_env ''out/schema.graphql'' []
       = ([ConsoleLog [], ConsoleLog ''Validating...'', ConsoleLog ''Saving out/schema.graphql'',
           MkdirSync ''out'', WriteFileSync ''out/schema.graphql'' ''null''], Returned)"
    by (simp add: lenient_env_def example_env_def)
  from empty_input [of strict_env "''Expected null to be a GraphQL schema.''" "''out/schema.graphql''"] 2
  have b: "build strict_env ''out/schema.graphql'' []
       = ([ConsoleLog [], ConsoleLog ''Validating...''],
          Uncaught (Raised ''Expected null to be a GraphQL schema.''))"
    by simp
  from empty_input [of rejecting_env _ "''out/schema.graphql''"
      "[''Query root type must be provided.'', ''Type Shadow must define one or more fields.'']"] 3
  have c: "snd (build rejecting_env ''out/schema.graphql'' []) = Exit 1" by simp
  from empty_input [of "lenient_env\<lparr>printSchema := (\<lambda>schema. Inl ''Cannot print null.'')\<rparr>"
      "''Cannot print null.''" "''out/schema.graphql''"]
  have d: "build (lenient_env\<lparr>printSchema := (\<lambda>schema. Inl ''Cannot print null.'')\<rparr>)
         ''out/schema.graphql'' []
       = ([ConsoleLog [], ConsoleLog ''Validating...'', ConsoleLog ''Saving out/schema.graphql'',
           MkdirSync ''out''], Uncaught (Raised ''Cannot print null.''))"
    by (simp add: lenient_env_def example_env_def)
  from a have e: "WriteFileSync ''out/schema.graphql'' ''null''
         \<in> set (fst (build lenient_env ''out/schema.graphql'' []))"
    by simp
  have f: "WriteFileSync path written_text \<notin> set (fst (build strict_env ''out/schema.graphql'' []))"
    for path written_text
    using empty_input [of strict_env _ "''out/schema.graphql''" _ _ path written_text] 2
    by auto
  from 1 2 3 a b c d e f show ?thesis by simp
qed

text \<open>
  The claim as stated fails: with primitives that treat null as the graphql package
  does, the build with no documents ends in the exception of \<open>validateSchema\<close>, and
  no null schema is printed or written.
\<close>

theorem empty_input_not_printed:
  "build strict_env ''out/schema.graphql'' []
     = ([ConsoleLog [], ConsoleLog ''Validating...''],
        Uncaught (Raised ''Expected null to be a GraphQL schema.''))"
  by (simp add: build_empty validate_and_save_def strict_env_def example_env_def)

section \<open>Properties of watch mode\<close>

text \<open>
  Claim C7 does not hold of the code. The listener returns at once for the name of a
  schema document and starts a build for every other name: the test of line 207 is the
  opposite of the one that the claim, and the filter of the initial scan, need.
\<close>

theorem watch_listener_inverted:
  "fileFilter ''user.graphql'' \<and> watch_listener ''change'' ''user.graphql'' = Return
   \<and> \<not> fileFilter ''notes.txt'' \<and> watch_listener ''change'' ''notes.txt'' = Start"
  by (simp add: watch_listener_def fileFilter_def ends_with_def lower_def line_terminator_def)

end
